theory Spec2Isabelle
  imports Complex_Main "HOL-Library.Multiset"
begin

section \<open>Data model of stage 3 (autonomous decomposition and compilation)\<close>

text \<open>
  The embedding follows \<^verbatim>\<open>scousepy/stage_3.py\<close>. Floating-point numbers are
  idealised as rationals. Python objects that the code mutates in place and shares through
  lists are kept in an explicit store: the completed list is the store of the compiler, and a
  reference to a task is its position in that list (the scheduler appends every task object
  once, so distinct positions are distinct objects).
\<close>

datatype pyerr = IndexError | AttributeError

text \<open>
  An attribute that is dynamically typed in the source: \<^verbatim>\<open>saa_dict_index\<close>,
  \<^verbatim>\<open>saaindex\<close> and \<^verbatim>\<open>model_from_parent\<close> hold a plain value while a task
  is being fitted and are overwritten with a Python list by \<^verbatim>\<open>compilation_method\<close>.
\<close>

datatype 'a pyattr = Scalar 'a | PyList "'a pyattr list"

record indivmodel =
  params :: "rat list"
  AIC :: rat

text \<open>A guess vector; \<open>None\<close> is Python's \<^verbatim>\<open>None\<close>.\<close>

type_synonym guesses = "rat list option"

datatype template = Template "rat list"

record individual_spectrum =
  index :: int
  coordinates :: "int \<times> int"
  spectrum :: "rat list"
  rms :: rat
  saa_dict_index :: "int pyattr"
  saaindex :: "int pyattr"
  template :: "template option"
  guesses_from_parent :: guesses
  guesses_updated :: guesses
  model_from_parent :: "indivmodel option pyattr"

text \<open>
  Modelled from the spec: \<^verbatim>\<open>individual_spectrum.add_model\<close> lives in
  \<^verbatim>\<open>model_housing2.py\<close>, which is not among the sources. The spec says a converged
  task gets the model attached; \<^verbatim>\<open>compilation_method\<close> reads the attached model
  from the attribute \<^verbatim>\<open>model_from_parent\<close>.
\<close>

definition add_model :: "individual_spectrum \<Rightarrow> indivmodel \<Rightarrow> individual_spectrum" where
  "add_model indivspec model = indivspec\<lparr>model_from_parent := Scalar (Some model)\<rparr>"

text \<open>The fields of \<^verbatim>\<open>scouseobject\<close> that stage 3 reads.\<close>

record scouseobject =
  so_xtrim :: "rat list"
  so_trimids :: "nat list"
  so_fittype :: string
  so_tol :: "rat list"
  so_cdelt3 :: rat
  so_njobs :: int

section \<open>numpy helpers\<close>

text \<open>\<^verbatim>\<open>np.size\<close>: \<^verbatim>\<open>None\<close> is a scalar of size 1, a vector has its length.\<close>

fun np_size :: "guesses \<Rightarrow> nat" where
  "np_size None = 1"
| "np_size (Some g) = length g"

text \<open>\<^verbatim>\<open>a[ids]\<close> for an array of positions: out of range raises.\<close>

definition np_take :: "'a list \<Rightarrow> nat list \<Rightarrow> pyerr + 'a list" where
  "np_take a ids = (if list_all (\<lambda>k. k < length a) ids then Inr (map (\<lambda>k. a ! k) ids)
                    else Inl IndexError)"

text \<open>\<^verbatim>\<open>np.where(a == v)[0]\<close>: the positions holding \<open>v\<close>, ascending.\<close>

definition np_where_eq :: "'a list \<Rightarrow> 'a \<Rightarrow> nat list" where
  "np_where_eq a v = filter (\<lambda>j. a ! j = v) [0..<length a]"

text \<open>\<^verbatim>\<open>np.unique(a)\<close>: the distinct values, sorted.\<close>

definition np_unique :: "'a::linorder list \<Rightarrow> 'a list" where
  "np_unique a = sort (remdups a)"

text \<open>The position of the first occurrence of \<open>v\<close> in \<open>a\<close>.\<close>

fun first_index :: "'a list \<Rightarrow> 'a \<Rightarrow> nat" where
  "first_index [] v = 0"
| "first_index (x # xs) v = (if x = v then 0 else Suc (first_index xs v))"

text \<open>
  \<^verbatim>\<open>np.unique(a, return_index=True)\<close>: the sorted distinct values and, for each, the
  position of its first occurrence in \<open>a\<close>.
\<close>

definition np_unique_index :: "'a::linorder list \<Rightarrow> 'a list \<times> nat list" where
  "np_unique_index a = (let uniqvals = np_unique a in (uniqvals, map (first_index a) uniqvals))"

text \<open>
  \<^verbatim>\<open>np.around(x, decimals=2)\<close> on the idealised value: scale by 100, round half to
  even, scale back.
\<close>

definition rint :: "rat \<Rightarrow> int" where
  "rint y = (let f = \<lfloor>y\<rfloor>; d = y - of_int f in
             if d < 1/2 then f else if 1/2 < d then f + 1 else if even f then f else f + 1)"

definition around2 :: "rat \<Rightarrow> rat" where
  "around2 x = of_int (rint (x * 100)) / 100"

section \<open>The fit executor\<close>

text \<open>
  The \<^verbatim>\<open>Decomposer\<close> class (\<^verbatim>\<open>SpectralDecomposer.py\<close>) is the external fitting
  capability. Its constructor arguments and the template are the fields of \<open>decomposer\<close>;
  \<^verbatim>\<open>fit_spectrum_from_parent\<close> is a parameter \<open>fit\<close> of the model that returns the
  attributes the caller reads afterwards.
\<close>

record decomposer =
  dec_spectral_axis :: "rat list"
  dec_spectrum :: "rat list"
  dec_rms :: rat
  psktemplate :: "template option"

record fit_outcome =
  validfit :: bool
  modeldict :: indivmodel
  out_guesses_updated :: guesses

type_synonym fitter =
  "decomposer \<Rightarrow> guesses \<Rightarrow> guesses \<Rightarrow> rat list \<Rightarrow> rat \<Rightarrow> string \<Rightarrow> fit_outcome"

type_synonym fit_input =
  "rat list \<times> nat list \<times> string \<times> rat list \<times> rat \<times> individual_spectrum"

type_synonym fit_result = "indivmodel option \<times> guesses"

definition decomposition_method :: "fitter \<Rightarrow> fit_input \<Rightarrow> pyerr + fit_result" where
  "decomposition_method fit input =
     (case input of (spectral_axis, specids, fittype, tol, res, indivspec) \<Rightarrow>
        (case np_take (spectrum indivspec) specids of
           Inl e \<Rightarrow> Inl e
         | Inr spectrum_trimmed \<Rightarrow>
             let decomposer = \<lparr>dec_spectral_axis = spectral_axis, dec_spectrum = spectrum_trimmed,
                               dec_rms = rms indivspec, psktemplate = template indivspec\<rparr>;
                 guesses = (if np_size (guesses_updated indivspec) \<le> 1
                            then guesses_from_parent indivspec
                            else guesses_updated indivspec);
                 guesses_parent = guesses_from_parent indivspec;
                 out = fit decomposer guesses guesses_parent tol res fittype;
                 model = (if validfit out then Some (modeldict out) else None)
             in Inr (model, out_guesses_updated out)))"

section \<open>The decomposition scheduler\<close>

text \<open>A list comprehension over calls that may raise: the first exception ends it.\<close>

fun collect :: "(pyerr + 'a) list \<Rightarrow> pyerr + 'a list" where
  "collect [] = Inr []"
| "collect (x # xs) =
     (case x of Inl e \<Rightarrow> Inl e
      | Inr y \<Rightarrow> (case collect xs of Inl e \<Rightarrow> Inl e | Inr ys \<Rightarrow> Inr (y # ys)))"

text \<open>
  Modelled from the spec: \<^verbatim>\<open>parallel_map\<close> (\<^verbatim>\<open>parallel_map.py\<close>) is not among
  the sources. The spec says it takes a function, an ordered list of independent inputs and
  a worker count and returns the outputs in the order of the inputs.
\<close>

definition parallel_map :: "('a \<Rightarrow> pyerr + 'b) \<Rightarrow> 'a list \<Rightarrow> int \<Rightarrow> pyerr + 'b list" where
  "parallel_map f inputs numcores = collect (map f inputs)"

text \<open>
  The dispatch of a batch. With \<^verbatim>\<open>verbose\<close> set the serial branch only wraps the
  input list in a progress bar, so that branch is not told apart.
\<close>

definition dispatch :: "fitter \<Rightarrow> scouseobject \<Rightarrow> individual_spectrum list \<Rightarrow> pyerr + fit_result list" where
  "dispatch fit so indivspec_list =
     (let inputlist = map (\<lambda>indivspec. (so_xtrim so, so_trimids so, so_fittype so, so_tol so, so_cdelt3 so, indivspec))
                          indivspec_list
      in if so_njobs so > 1 then parallel_map (decomposition_method fit) inputlist (so_njobs so)
         else collect (map (decomposition_method fit) inputlist))"

text \<open>
  The \<^verbatim>\<open>for i, result in enumerate(results)\<close> loop. The first component of the
  result is \<^verbatim>\<open>indivspec_list\<close> after the loop, a slot being \<open>None\<close> where the loop
  stored \<^verbatim>\<open>None\<close>; the second is \<^verbatim>\<open>indivspec_list_completed\<close>.
\<close>

fun assign_results ::
  "(individual_spectrum \<times> fit_result) list \<Rightarrow> individual_spectrum list \<Rightarrow>
   individual_spectrum option list \<times> individual_spectrum list" where
  "assign_results [] completed = ([], completed)"
| "assign_results ((indivspec0, result) # rest) completed =
     (let model = fst result;
          guesses_updated = snd result;
          indivspec = indivspec0\<lparr>template := None\<rparr>
      in case model of
           None \<Rightarrow>
             if np_size guesses_updated = 0
             then (case assign_results rest (completed @ [indivspec]) of
                     (slots, done) \<Rightarrow> (None # slots, done))
             else (case assign_results rest completed of
                     (slots, done) \<Rightarrow>
                       (Some (indivspec\<lparr>guesses_updated := guesses_updated\<rparr>) # slots, done))
         | Some m \<Rightarrow>
             (case assign_results rest (completed @ [add_model indivspec m]) of
                (slots, done) \<Rightarrow> (None # slots, done)))"

text \<open>\<^verbatim>\<open>[indivspec for indivspec in indivspec_list if indivspec != None]\<close>\<close>

definition drop_none :: "'a option list \<Rightarrow> 'a list" where
  "drop_none slots = map the (filter (\<lambda>s. s \<noteq> None) slots)"

text \<open>
  The \<^verbatim>\<open>while\<close> loop, whose condition is the size of the pending list. It runs
  for as long as some task is sent back for another fit, so it is a partial function: \<open>None\<close>
  is a loop that never ends, \<open>Some (Inl e)\<close> an exception, \<open>Some (Inr c)\<close> the return
  of the completed list \<open>c\<close>.
\<close>

partial_function (option) decomposition_loop ::
  "fitter \<Rightarrow> scouseobject \<Rightarrow> individual_spectrum list \<Rightarrow> individual_spectrum list \<Rightarrow>
   (pyerr + individual_spectrum list) option" where
  "decomposition_loop fit so indivspec_list completed =
     (if length indivspec_list = 0 then Some (Inr completed)
      else case dispatch fit so indivspec_list of
             Inl e \<Rightarrow> Some (Inl e)
           | Inr results \<Rightarrow>
               (case assign_results (zip indivspec_list results) completed of
                  (slots, done) \<Rightarrow> decomposition_loop fit so (drop_none slots) done))"

declare decomposition_loop.simps [code]

definition autonomous_decomposition ::
  "fitter \<Rightarrow> scouseobject \<Rightarrow> individual_spectrum list \<Rightarrow> (pyerr + individual_spectrum list) option" where
  "autonomous_decomposition fit so indivspec_list = decomposition_loop fit so indivspec_list []"

section \<open>The compiler\<close>

text \<open>
  The rounded AIC of a candidate, \<open>None\<close> standing for \<^verbatim>\<open>np.nan\<close>. Reading
  \<^verbatim>\<open>.AIC\<close> from an attribute that holds a list raises.
\<close>

definition aic_of :: "individual_spectrum \<Rightarrow> pyerr + rat option" where
  "aic_of indivspec =
     (case model_from_parent indivspec of
        Scalar None \<Rightarrow> Inr None
      | Scalar (Some m) \<Rightarrow> Inr (Some (around2 (AIC m)))
      | PyList l \<Rightarrow> Inl AttributeError)"

text \<open>The three \<^verbatim>\<open>setattr\<close> calls that end every branch.\<close>

definition set_provenance ::
  "individual_spectrum \<Rightarrow> int pyattr list \<Rightarrow> int pyattr list \<Rightarrow> indivmodel option pyattr list \<Rightarrow>
   individual_spectrum" where
  "set_provenance indivspec saa_dict_index' saaindex' model_from_parent' =
     indivspec\<lparr>saa_dict_index := PyList saa_dict_index', saaindex := PyList saaindex',
               model_from_parent := PyList model_from_parent'\<rparr>"

type_synonym compile_input = "nat \<times> int list \<times> int list \<times> individual_spectrum list"

text \<open>
  \<^verbatim>\<open>compilation_method\<close> returns the chosen task object, which it has modified in
  place: the model returns its reference and the store after the call. The sublist of
  candidates is kept as the list \<open>idx\<close> of their references.
\<close>

definition compilation_method :: "compile_input \<Rightarrow> pyerr + (nat \<times> individual_spectrum list)" where
  "compilation_method input =
     (case input of (i, indexarr, indexarr_unique, indivspec_list_completed) \<Rightarrow>
        if \<not> i < length indexarr_unique then Inl IndexError
        else
          let idx = np_where_eq indexarr (indexarr_unique ! i) in
          if length idx = 1 then
            (case np_take indivspec_list_completed [idx ! 0] of
               Inl e \<Rightarrow> Inl e
             | Inr found \<Rightarrow>
                 let indivspec = found ! 0 in
                 Inr (idx ! 0,
                      indivspec_list_completed
                        [idx ! 0 := set_provenance indivspec [saa_dict_index indivspec]
                                      [saaindex indivspec] [model_from_parent indivspec]]))
          else
            (case np_take indivspec_list_completed idx of
               Inl e \<Rightarrow> Inl e
             | Inr indivspec_sublist_completed \<Rightarrow>
                 (case collect (map aic_of indivspec_sublist_completed) of
                    Inl e \<Rightarrow> Inl e
                  | Inr aic_sublist_completed \<Rightarrow>
                      if \<not> list_ex (\<lambda>a. a \<noteq> None) aic_sublist_completed then
                        (if idx = [] then Inl IndexError
                         else
                           let indivspec = indivspec_sublist_completed ! 0 in
                           Inr (idx ! 0,
                                indivspec_list_completed
                                  [idx ! 0 := set_provenance indivspec [saa_dict_index indivspec]
                                                [saaindex indivspec] [model_from_parent indivspec]]))
                      else
                        let (uniqvals, uniqids) =
                              np_unique_index (map the (filter (\<lambda>a. a \<noteq> None) aic_sublist_completed));
                            kept = map (\<lambda>k. indivspec_sublist_completed ! k) uniqids;
                            indivspec = indivspec_sublist_completed ! (uniqids ! 0)
                        in Inr (idx ! (uniqids ! 0),
                                indivspec_list_completed
                                  [idx ! (uniqids ! 0) :=
                                     set_provenance indivspec (map saa_dict_index kept)
                                       (map saaindex kept) (map model_from_parent kept)]))))"

text \<open>The list comprehension over \<^verbatim>\<open>inputlist\<close>, the calls running one after another
  on the same task objects.\<close>

fun compile_each ::
  "nat list \<Rightarrow> int list \<Rightarrow> int list \<Rightarrow> individual_spectrum list \<Rightarrow>
   pyerr + (nat list \<times> individual_spectrum list)" where
  "compile_each [] indexarr indexarr_unique store = Inr ([], store)"
| "compile_each (i # rest) indexarr indexarr_unique store =
     (case compilation_method (i, indexarr, indexarr_unique, store) of
        Inl e \<Rightarrow> Inl e
      | Inr (r, store') \<Rightarrow>
          (case compile_each rest indexarr indexarr_unique store' of
             Inl e \<Rightarrow> Inl e
           | Inr (results, store'') \<Rightarrow> Inr (r # results, store'')))"

text \<open>
  \<^verbatim>\<open>compile_spectra\<close> returns nothing and leaves the dictionary in
  \<^verbatim>\<open>scouseobject.indiv_dict\<close>: the model returns the store after the call and the
  dictionary, whose values are references into that store.
\<close>

definition compile_spectra ::
  "individual_spectrum list \<Rightarrow> pyerr + (individual_spectrum list \<times> (int \<rightharpoonup> nat))" where
  "compile_spectra indivspec_list_completed =
     (let indexarr = map index indivspec_list_completed;
          indexarr_unique = sort (np_unique indexarr)
      in case compile_each [0..<length indexarr_unique] indexarr indexarr_unique
                indivspec_list_completed of
           Inl e \<Rightarrow> Inl e
         | Inr (results, store) \<Rightarrow>
             Inr (store, fold (\<lambda>r indiv_dict. indiv_dict(index (store ! r) \<mapsto> r)) results Map.empty))"

text \<open>The compiled spectrum a key of the dictionary stands for.\<close>

definition compiled_spectrum ::
  "individual_spectrum list \<times> (int \<rightharpoonup> nat) \<Rightarrow> int \<Rightarrow> individual_spectrum option" where
  "compiled_spectrum out key = map_option (\<lambda>r. fst out ! r) (snd out key)"

section \<open>Notions used to state the properties\<close>

subsection \<open>The scheduler\<close>

text \<open>
  The three outcomes the specification gives a batch result: a model is present, or the
  updated guesses are empty, or the task is fitted again with the updated guesses.
\<close>

datatype outcome = CONVERGED indivmodel | EXHAUSTED | RETRY guesses

fun classify :: "fit_result \<Rightarrow> outcome" where
  "classify (Some m, g) = CONVERGED m"
| "classify (None, g) = (if np_size g = 0 then EXHAUSTED else RETRY g)"

text \<open>What a task and its result add to the completed list, and to the next batch.\<close>

definition completed_of :: "individual_spectrum \<times> fit_result \<Rightarrow> individual_spectrum list" where
  "completed_of p = (case classify (snd p) of
       CONVERGED m \<Rightarrow> [add_model ((fst p)\<lparr>template := None\<rparr>) m]
     | EXHAUSTED \<Rightarrow> [(fst p)\<lparr>template := None\<rparr>]
     | RETRY g \<Rightarrow> [])"

definition pending_of :: "individual_spectrum \<times> fit_result \<Rightarrow> individual_spectrum list" where
  "pending_of p = (case classify (snd p) of
       CONVERGED m \<Rightarrow> []
     | EXHAUSTED \<Rightarrow> []
     | RETRY g \<Rightarrow> [(fst p)\<lparr>template := None, guesses_updated := g\<rparr>])"

text \<open>The trimming positions are channels of the task's spectrum, so that the fit executor
  does not raise.\<close>

definition ids_ok :: "scouseobject \<Rightarrow> individual_spectrum \<Rightarrow> bool" where
  "ids_ok so t = list_all (\<lambda>k. k < length (spectrum t)) (so_trimids so)"

text \<open>The input the scheduler builds for a task, and the result of its fit.\<close>

definition fit_input_of :: "scouseobject \<Rightarrow> individual_spectrum \<Rightarrow> fit_input" where
  "fit_input_of so indivspec =
     (so_xtrim so, so_trimids so, so_fittype so, so_tol so, so_cdelt3 so, indivspec)"

definition fit_once :: "fitter \<Rightarrow> scouseobject \<Rightarrow> individual_spectrum \<Rightarrow> fit_result" where
  "fit_once fit so t = projr (decomposition_method fit (fit_input_of so t))"

definition terminal_result :: "fit_result \<Rightarrow> bool" where
  "terminal_result r = (fst r \<noteq> None \<or> np_size (snd r) = 0)"

text \<open>The task as the scheduler leaves it when it sends it back for another fit.\<close>

definition next_task :: "fitter \<Rightarrow> scouseobject \<Rightarrow> individual_spectrum \<Rightarrow> individual_spectrum" where
  "next_task fit so t = t\<lparr>template := None, guesses_updated := snd (fit_once fit so t)\<rparr>"

text \<open>
  \<open>settles fit so n t\<close>: fitted again and again, the task \<open>t\<close> yields a model or an empty
  guess set at its first fit or at one of the \<open>n\<close> fits after it.
\<close>

fun settles :: "fitter \<Rightarrow> scouseobject \<Rightarrow> nat \<Rightarrow> individual_spectrum \<Rightarrow> bool" where
  "settles fit so 0 t = terminal_result (fit_once fit so t)"
| "settles fit so (Suc n) t =
     (terminal_result (fit_once fit so t) \<or> settles fit so n (next_task fit so t))"

text \<open>
  \<open>terminal_state fit so t u\<close>: the fit of the task \<open>t\<close> ended it, and \<open>u\<close> is the task as
  the scheduler then appends it to the completed list: \<open>t\<close> with its template cleared and the
  model of that fit attached or, when the fit gave no model and an empty guess set, \<open>t\<close> with
  its template cleared and nothing attached.
\<close>

definition terminal_state ::
  "fitter \<Rightarrow> scouseobject \<Rightarrow> individual_spectrum \<Rightarrow> individual_spectrum \<Rightarrow> bool" where
  "terminal_state fit so t u =
     (case fst (fit_once fit so t) of
        Some m \<Rightarrow> u = add_model (t\<lparr>template := None\<rparr>) m
      | None \<Rightarrow> np_size (snd (fit_once fit so t)) = 0 \<and> u = t\<lparr>template := None\<rparr>)"

text \<open>A task without the three attributes the scheduler writes: what identifies it.\<close>

definition core :: "individual_spectrum \<Rightarrow> individual_spectrum" where
  "core t = t\<lparr>template := None, guesses_updated := None, model_from_parent := Scalar None\<rparr>"

subsection \<open>The compiler\<close>

text \<open>The rounded AIC of a candidate whose model attribute is as the scheduler leaves it.\<close>

definition raic :: "individual_spectrum \<Rightarrow> rat option" where
  "raic t = (case model_from_parent t of Scalar (Some m) \<Rightarrow> Some (around2 (AIC m)) | _ \<Rightarrow> None)"

text \<open>The model attribute is as the scheduler leaves it: a model or nothing, not a list.\<close>

definition fresh :: "individual_spectrum \<Rightarrow> bool" where
  "fresh t = (case model_from_parent t of Scalar m \<Rightarrow> True | PyList l \<Rightarrow> False)"

text \<open>What the compiler makes of a task that is the only candidate of its pixel.\<close>

definition wrap :: "individual_spectrum \<Rightarrow> individual_spectrum" where
  "wrap t = set_provenance t [saa_dict_index t] [saaindex t] [model_from_parent t]"

subsection \<open>A fitter and tasks to run the definitions on\<close>

definition example_so :: scouseobject where
  "example_so = \<lparr>so_xtrim = [10, 11, 12], so_trimids = [1, 2, 3], so_fittype = ''gaussian'',
                  so_tol = [2, 3, 1], so_cdelt3 = 1, so_njobs = 1\<rparr>"

definition example_template :: template where
  "example_template = Template [10, 11, 12]"

definition example_fit :: fitter where
  "example_fit d g gp tol res ft =
     (if 3 < np_size g
      then \<lparr>validfit = False, modeldict = \<lparr>params = [], AIC = 0\<rparr>,
            out_guesses_updated = map_option (drop 3) g\<rparr>
      else if dec_rms d \<le> 1
      then \<lparr>validfit = True, modeldict = \<lparr>params = dec_spectrum d, AIC = 100 * dec_rms d\<rparr>,
            out_guesses_updated = g\<rparr>
      else \<lparr>validfit = False, modeldict = \<lparr>params = [], AIC = 0\<rparr>,
            out_guesses_updated = Some []\<rparr>)"

definition example_task ::
  "int \<Rightarrow> int \<Rightarrow> int \<Rightarrow> rat \<Rightarrow> rat list \<Rightarrow> template option \<Rightarrow> guesses \<Rightarrow>
   indivmodel option \<Rightarrow> individual_spectrum" where
  "example_task ix i j noise g tpl gu m =
     \<lparr>index = ix, coordinates = (0, ix), spectrum = [0, 1, 4, 1], rms = noise,
      saa_dict_index = Scalar i, saaindex = Scalar j, template = tpl,
      guesses_from_parent = Some g, guesses_updated = gu, model_from_parent = Scalar m\<rparr>"

definition task_a :: individual_spectrum where
  "task_a = example_task 7 0 1 (1/2) [5, 11, 1, 3, 12, 1] (Some example_template) None None"

definition task_b :: individual_spectrum where
  "task_b = example_task 7 1 4 (2/5) [4, 11, 2] (Some example_template) None None"

definition task_c :: individual_spectrum where
  "task_c = example_task 9 0 1 2 [5, 11, 1, 3, 12, 1] (Some example_template) None None"

definition task_d :: individual_spectrum where
  "task_d = example_task 9 1 4 3 [4, 11, 2] (Some example_template) None None"

text \<open>The same tasks as the scheduler leaves them.\<close>

definition task_a_retry :: individual_spectrum where
  "task_a_retry = example_task 7 0 1 (1/2) [5, 11, 1, 3, 12, 1] None (Some [3, 12, 1]) None"

definition task_a_done :: individual_spectrum where
  "task_a_done = example_task 7 0 1 (1/2) [5, 11, 1, 3, 12, 1] None (Some [3, 12, 1])
                   (Some \<lparr>params = [1, 4, 1], AIC = 50\<rparr>)"

definition task_b_done :: individual_spectrum where
  "task_b_done = example_task 7 1 4 (2/5) [4, 11, 2] None None (Some \<lparr>params = [1, 4, 1], AIC = 40\<rparr>)"

definition task_c_retry :: individual_spectrum where
  "task_c_retry = example_task 9 0 1 2 [5, 11, 1, 3, 12, 1] None (Some [3, 12, 1]) None"

definition task_c_done :: individual_spectrum where
  "task_c_done = example_task 9 0 1 2 [5, 11, 1, 3, 12, 1] None (Some [3, 12, 1]) None"

definition task_d_done :: individual_spectrum where
  "task_d_done = example_task 9 1 4 3 [4, 11, 2] None None None"

text \<open>Completed tasks of pixel 7 for the compiler.\<close>

definition task_e_done :: individual_spectrum where
  "task_e_done = example_task 7 0 1 (1/2) [5, 11, 1] None None (Some \<lparr>params = [1, 4, 1], AIC = 50\<rparr>)"

definition task_f_done :: individual_spectrum where
  "task_f_done = example_task 7 2 6 3 [4, 12, 2] None None None"

text \<open>A fitter that never finds a model and hands back the guesses it was given, and a task
  for it.\<close>

definition constant_fit :: fitter where
  "constant_fit d g gp tol res ft =
     \<lparr>validfit = False, modeldict = \<lparr>params = [], AIC = 0\<rparr>, out_guesses_updated = g\<rparr>"

definition task_s :: individual_spectrum where
  "task_s = example_task 5 0 1 1 [4, 11, 2] None (Some [4, 11, 2]) None"

section \<open>The scheduler: lemmas\<close>

lemma assign_results_snd:
  "snd (assign_results ps completed) = completed @ concat (map completed_of ps)"
proof (induction ps arbitrary: completed)
  case Nil
  show ?case by simp
next
  case (Cons p ps)
  obtain t m g where p: "p = (t, m, g)" by (cases p) auto
  show ?case
    by (cases m) (simp_all add: p Cons.IH completed_of_def Let_def case_prod_beta)
qed

lemma drop_none_simps:
  "drop_none [] = []"
  "drop_none (None # slots) = drop_none slots"
  "drop_none (Some x # slots) = x # drop_none slots"
  by (simp_all add: drop_none_def)

lemma assign_results_fst:
  "drop_none (fst (assign_results ps completed)) = concat (map pending_of ps)"
proof (induction ps arbitrary: completed)
  case Nil
  show ?case by (simp add: drop_none_simps)
next
  case (Cons p ps)
  obtain t m g where p: "p = (t, m, g)" by (cases p) auto
  show ?case
    by (cases m) (simp_all add: p Cons.IH drop_none_simps pending_of_def Let_def case_prod_beta)
qed


lemma decomposition_method_ok:
  "ids_ok so t \<Longrightarrow> decomposition_method fit (fit_input_of so t) = Inr (fit_once fit so t)"
  by (simp add: fit_once_def decomposition_method_def fit_input_of_def ids_ok_def np_take_def Let_def)

lemma collect_map_ok:
  "\<forall>x\<in>set xs. f x = Inr (g x) \<Longrightarrow> collect (map f xs) = Inr (map g xs)"
  by (induction xs) simp_all

lemma collect_length: "collect xs = Inr ys \<Longrightarrow> length ys = length xs"
  by (induction xs arbitrary: ys) (auto split: sum.splits)

lemma dispatch_ok:
  assumes "\<forall>t\<in>set ts. ids_ok so t"
  shows "dispatch fit so ts = Inr (map (fit_once fit so) ts)"
proof -
  have "collect (map (\<lambda>t. decomposition_method fit (fit_input_of so t)) ts)
        = Inr (map (fit_once fit so) ts)"
    using assms by (intro collect_map_ok) (simp add: decomposition_method_ok)
  then show ?thesis
    by (simp add: dispatch_def parallel_map_def fit_input_of_def comp_def Let_def)
qed

lemma dispatch_length: "dispatch fit so ts = Inr rs \<Longrightarrow> length rs = length ts"
  by (auto simp: dispatch_def parallel_map_def Let_def dest: collect_length split: if_splits)

lemma loop_step:
  assumes "ts \<noteq> []" and "dispatch fit so ts = Inr rs"
  shows "decomposition_loop fit so ts c =
         decomposition_loop fit so (concat (map pending_of (zip ts rs)))
                                   (c @ concat (map completed_of (zip ts rs)))"
proof -
  obtain slots dn where a: "assign_results (zip ts rs) c = (slots, dn)"
    by (cases "assign_results (zip ts rs) c")
  have "drop_none slots = concat (map pending_of (zip ts rs))"
    using assign_results_fst [of "zip ts rs" c] a by simp
  moreover have "dn = c @ concat (map completed_of (zip ts rs))"
    using assign_results_snd [of "zip ts rs" c] a by simp
  ultimately show ?thesis
    using assms a by (subst decomposition_loop.simps) simp
qed

lemma loop_error:
  assumes "ts \<noteq> []" and "dispatch fit so ts = Inl e"
  shows "decomposition_loop fit so ts c = Some (Inl e)"
  using assms by (subst decomposition_loop.simps) simp

lemma loop_done: "decomposition_loop fit so [] c = Some (Inr c)"
  by (subst decomposition_loop.simps) simp


lemma pending_of_fit:
  "pending_of (t, fit_once fit so t) =
     (if terminal_result (fit_once fit so t) then [] else [next_task fit so t])"
  by (cases "fit_once fit so t"; cases "fst (fit_once fit so t)")
     (auto simp: pending_of_def terminal_result_def next_task_def)

lemma pending_round:
  "concat (map pending_of (zip ts (map (fit_once fit so) ts))) =
   map (next_task fit so) (filter (\<lambda>t. \<not> terminal_result (fit_once fit so t)) ts)"
  by (induction ts) (simp_all add: pending_of_fit)

lemma round_length:
  "length (concat (map pending_of ps)) + length (concat (map completed_of ps)) = length ps"
proof (induction ps)
  case Nil
  show ?case by simp
next
  case (Cons p ps)
  obtain t m g where p: "p = (t, m, g)" by (cases p) auto
  from Cons show ?case
    by (cases m) (simp_all add: p pending_of_def completed_of_def)
qed

lemma settles_Suc: "settles fit so n t \<Longrightarrow> settles fit so (Suc n) t"
  by (induction n arbitrary: t) auto

lemma settles_add: "settles fit so n t \<Longrightarrow> settles fit so (n + k) t"
  by (induction k) (auto dest: settles_Suc)

lemma settles_mono: "settles fit so n t \<Longrightarrow> n \<le> m \<Longrightarrow> settles fit so m t"
  using settles_add [of fit so n t "m - n"] by simp

lemma settles_uniform:
  "\<forall>t\<in>set ts. \<exists>n. settles fit so n t \<Longrightarrow> \<exists>N. \<forall>t\<in>set ts. settles fit so N t"
proof (induction ts)
  case Nil
  show ?case by simp
next
  case (Cons t ts)
  then obtain N where N: "\<forall>u\<in>set ts. settles fit so N u" by auto
  from Cons.prems obtain n where n: "settles fit so n t" by auto
  have "\<forall>u\<in>set (t # ts). settles fit so (max n N) u"
    using N n by (auto intro: settles_mono)
  then show ?case ..
qed

lemma ids_ok_next_task: "ids_ok so (next_task fit so t) = ids_ok so t"
  by (simp add: ids_ok_def next_task_def)

lemma loop_terminates:
  "\<forall>t\<in>set ts. ids_ok so t \<and> settles fit so N t \<Longrightarrow>
   \<exists>r. decomposition_loop fit so ts c = Some (Inr r) \<and> length r = length c + length ts"
proof (induction N arbitrary: ts c)
  case 0
  show ?case
  proof (cases "ts = []")
    case True
    then show ?thesis by (simp add: loop_done)
  next
    case False
    let ?rs = "map (fit_once fit so) ts"
    have d: "dispatch fit so ts = Inr ?rs" using 0 by (simp add: dispatch_ok)
    have "filter (\<lambda>t. \<not> terminal_result (fit_once fit so t)) ts = []"
      using 0 by (simp add: filter_empty_conv)
    then have p: "concat (map pending_of (zip ts ?rs)) = []"
      by (simp add: pending_round)
    have "length (concat (map completed_of (zip ts ?rs))) = length ts"
      using round_length [of "zip ts ?rs"] p by simp
    then show ?thesis
      by (simp add: loop_step [OF False d] p loop_done)
  qed
next
  case (Suc N)
  show ?case
  proof (cases "ts = []")
    case True
    then show ?thesis by (simp add: loop_done)
  next
    case False
    let ?rs = "map (fit_once fit so) ts"
    let ?ts' = "map (next_task fit so) (filter (\<lambda>t. \<not> terminal_result (fit_once fit so t)) ts)"
    let ?c' = "c @ concat (map completed_of (zip ts ?rs))"
    have d: "dispatch fit so ts = Inr ?rs" using Suc.prems by (simp add: dispatch_ok)
    have p: "concat (map pending_of (zip ts ?rs)) = ?ts'" by (rule pending_round)
    have "\<forall>t\<in>set ?ts'. ids_ok so t \<and> settles fit so N t"
      using Suc.prems by (auto simp: ids_ok_next_task)
    from Suc.IH [OF this, of ?c'] obtain r where
      r: "decomposition_loop fit so ?ts' ?c' = Some (Inr r)" "length r = length ?c' + length ?ts'"
      by blast
    have "length ?ts' + length (concat (map completed_of (zip ts ?rs))) = length ts"
      using round_length [of "zip ts ?rs"] p by simp
    then show ?thesis
      using r by (simp add: loop_step [OF False d] p)
  qed
qed

lemma core_round:
  "mset (map core (concat (map pending_of ps))) + mset (map core (concat (map completed_of ps)))
   = mset (map core (map fst ps))"
proof (induction ps)
  case Nil
  show ?case by simp
next
  case (Cons p ps)
  obtain t m g where p: "p = (t, m, g)" by (cases p) auto
  from Cons show ?case
    by (cases m) (simp_all add: p pending_of_def completed_of_def core_def add_model_def)
qed

lemma loop_mset:
  assumes "decomposition_loop fit so ts c = Some res"
  shows "\<forall>r. res = Inr r \<longrightarrow> mset (map core r) = mset (map core c) + mset (map core ts)"
proof (rule decomposition_loop.raw_induct
    [where P = "\<lambda>fit so ts c res. \<forall>r. res = Inr r \<longrightarrow>
                  mset (map core r) = mset (map core c) + mset (map core ts)", OF _ assms],
    goal_cases)
  case (1 loop fit so ts c res)
  show ?case
  proof (cases "ts = []")
    case True
    with 1(2) show ?thesis by auto
  next
    case False
    show ?thesis
    proof (cases "dispatch fit so ts")
      case (Inl e)
      with 1(2) False show ?thesis by auto
    next
      case (Inr rs)
      obtain slots dn where a: "assign_results (zip ts rs) c = (slots, dn)"
        by (cases "assign_results (zip ts rs) c")
      have s: "drop_none slots = concat (map pending_of (zip ts rs))"
        using assign_results_fst [of "zip ts rs" c] a by simp
      have dn: "dn = c @ concat (map completed_of (zip ts rs))"
        using assign_results_snd [of "zip ts rs" c] a by simp
      have "loop fit so (drop_none slots) dn = Some res"
        using 1(2) False Inr a by simp
      from 1(1) [OF this]
      have ih: "\<forall>r. res = Inr r \<longrightarrow> mset (map core r) = mset (map core dn) + mset (map core (drop_none slots))" .
      have "length rs = length ts" using Inr by (rule dispatch_length)
      then have "map fst (zip ts rs) = ts" by simp
      with core_round [of "zip ts rs"]
      have "mset (map core ts) = mset (map core (drop_none slots))
              + mset (map core (concat (map completed_of (zip ts rs))))"
        by (simp add: s)
      then have "mset (map core dn) + mset (map core (drop_none slots))
                 = mset (map core c) + mset (map core ts)"
        by (simp add: dn)
      with ih show ?thesis by simp
    qed
  qed
qed

lemma loop_append:
  assumes "decomposition_loop fit so ts c = Some res"
  shows "\<forall>r c0. res = Inr r \<longrightarrow> decomposition_loop fit so ts (c0 @ c) = Some (Inr (c0 @ r))"
proof (rule decomposition_loop.raw_induct
    [where P = "\<lambda>fit so ts c res. \<forall>r c0. res = Inr r \<longrightarrow>
                  decomposition_loop fit so ts (c0 @ c) = Some (Inr (c0 @ r))", OF _ assms],
    goal_cases)
  case (1 loop fit so ts c res)
  show ?case
  proof (cases "ts = []")
    case True
    with 1(2) show ?thesis by (auto simp: loop_done)
  next
    case False
    show ?thesis
    proof (cases "dispatch fit so ts")
      case (Inl e)
      with 1(2) False show ?thesis by auto
    next
      case (Inr rs)
      obtain slots dn where a: "assign_results (zip ts rs) c = (slots, dn)"
        by (cases "assign_results (zip ts rs) c")
      have s: "drop_none slots = concat (map pending_of (zip ts rs))"
        using assign_results_fst [of "zip ts rs" c] a by simp
      have dn: "dn = c @ concat (map completed_of (zip ts rs))"
        using assign_results_snd [of "zip ts rs" c] a by simp
      have "loop fit so (drop_none slots) dn = Some res"
        using 1(2) False Inr a by simp
      from 1(1) [OF this]
      have ih: "\<forall>r c0. res = Inr r \<longrightarrow>
                  decomposition_loop fit so (drop_none slots) (c0 @ dn) = Some (Inr (c0 @ r))" .
      show ?thesis
        using ih by (simp add: loop_step [OF False Inr] s dn)
    qed
  qed
qed

lemma loop_prefix:
  assumes "decomposition_loop fit so ts c = Some res"
  shows "\<forall>r. res = Inr r \<longrightarrow>
           (\<exists>later. r = c @ later \<and> decomposition_loop fit so ts [] = Some (Inr later))"
proof (rule decomposition_loop.raw_induct
    [where P = "\<lambda>fit so ts c res. \<forall>r. res = Inr r \<longrightarrow>
           (\<exists>later. r = c @ later \<and> decomposition_loop fit so ts [] = Some (Inr later))",
     OF _ assms], goal_cases)
  case (1 loop fit so ts c res)
  show ?case
  proof (cases "ts = []")
    case True
    with 1(2) show ?thesis by (auto simp: loop_done)
  next
    case False
    show ?thesis
    proof (cases "dispatch fit so ts")
      case (Inl e)
      with 1(2) False show ?thesis by auto
    next
      case (Inr rs)
      let ?fin = "concat (map completed_of (zip ts rs))"
      let ?pend = "concat (map pending_of (zip ts rs))"
      obtain slots dn where a: "assign_results (zip ts rs) c = (slots, dn)"
        by (cases "assign_results (zip ts rs) c")
      have s: "drop_none slots = ?pend"
        using assign_results_fst [of "zip ts rs" c] a by simp
      have dn: "dn = c @ ?fin"
        using assign_results_snd [of "zip ts rs" c] a by simp
      have "loop fit so (drop_none slots) dn = Some res"
        using 1(2) False Inr a by simp
      from 1(1) [OF this]
      have ih: "\<forall>r. res = Inr r \<longrightarrow>
                  (\<exists>later. r = dn @ later \<and> decomposition_loop fit so ?pend [] = Some (Inr later))"
        by (simp add: s)
      show ?thesis
      proof (intro allI impI)
        fix r assume "res = Inr r"
        with ih obtain later where l: "r = dn @ later"
          "decomposition_loop fit so ?pend [] = Some (Inr later)" by blast
        from loop_append [OF l(2)]
        have "decomposition_loop fit so ?pend (?fin @ []) = Some (Inr (?fin @ later))" by blast
        then have "decomposition_loop fit so ts [] = Some (Inr (?fin @ later))"
          by (simp add: loop_step [OF False Inr])
        with l(1) show "\<exists>later. r = c @ later \<and> decomposition_loop fit so ts [] = Some (Inr later)"
          by (simp add: dn)
      qed
    qed
  qed
qed

lemma loop_first_round:
  assumes "decomposition_loop fit so ts c = Some (Inr r)" and "ts \<noteq> []"
  shows "\<exists>rs later. dispatch fit so ts = Inr rs \<and>
           r = c @ concat (map completed_of (zip ts rs)) @ later \<and>
           decomposition_loop fit so (concat (map pending_of (zip ts rs))) [] = Some (Inr later)"
proof (cases "dispatch fit so ts")
  case (Inl e)
  with assms show ?thesis by (simp add: loop_error)
next
  case (Inr rs)
  let ?fin = "concat (map completed_of (zip ts rs))"
  let ?pend = "concat (map pending_of (zip ts rs))"
  have "decomposition_loop fit so ?pend (c @ ?fin) = Some (Inr r)"
    using assms by (simp add: loop_step [OF assms(2) Inr])
  from loop_prefix [OF this] obtain later where
    "r = (c @ ?fin) @ later" "decomposition_loop fit so ?pend [] = Some (Inr later)" by blast
  with Inr show ?thesis by simp
qed

text \<open>The scheduler leaves the model attribute a model or nothing.\<close>

lemma fresh_round:
  assumes "\<forall>t\<in>set (map fst ps). fresh t"
  shows "(\<forall>t\<in>set (concat (map pending_of ps)). fresh t) \<and>
         (\<forall>t\<in>set (concat (map completed_of ps)). fresh t)"
  using assms
  by (auto simp: pending_of_def completed_of_def fresh_def add_model_def split: outcome.splits)

lemma completed_fresh:
  assumes "decomposition_loop fit so ts c = Some res"
  shows "\<forall>r. res = Inr r \<longrightarrow> (\<forall>t\<in>set ts. fresh t) \<longrightarrow> (\<forall>t\<in>set c. fresh t) \<longrightarrow>
           (\<forall>t\<in>set r. fresh t)"
proof (rule decomposition_loop.raw_induct
    [where P = "\<lambda>fit so ts c res. \<forall>r. res = Inr r \<longrightarrow> (\<forall>t\<in>set ts. fresh t) \<longrightarrow>
                  (\<forall>t\<in>set c. fresh t) \<longrightarrow> (\<forall>t\<in>set r. fresh t)", OF _ assms],
    goal_cases)
  case (1 loop fit so ts c res)
  show ?case
  proof (cases "ts = []")
    case True
    with 1(2) show ?thesis by auto
  next
    case False
    show ?thesis
    proof (cases "dispatch fit so ts")
      case (Inl e)
      with 1(2) False show ?thesis by auto
    next
      case (Inr rs)
      obtain slots dn where a: "assign_results (zip ts rs) c = (slots, dn)"
        by (cases "assign_results (zip ts rs) c")
      have s: "drop_none slots = concat (map pending_of (zip ts rs))"
        using assign_results_fst [of "zip ts rs" c] a by simp
      have dn: "dn = c @ concat (map completed_of (zip ts rs))"
        using assign_results_snd [of "zip ts rs" c] a by simp
      have "loop fit so (drop_none slots) dn = Some res"
        using 1(2) False Inr a by simp
      from 1(1) [OF this]
      have ih: "\<forall>r. res = Inr r \<longrightarrow> (\<forall>t\<in>set (drop_none slots). fresh t) \<longrightarrow>
                  (\<forall>t\<in>set dn. fresh t) \<longrightarrow> (\<forall>t\<in>set r. fresh t)" .
      have "length rs = length ts" using Inr by (rule dispatch_length)
      then have m: "map fst (zip ts rs) = ts" by simp
      show ?thesis
      proof (intro allI impI)
        fix r assume r: "res = Inr r" and f: "\<forall>t\<in>set ts. fresh t" "\<forall>t\<in>set c. fresh t"
        from f(1) have "\<forall>t\<in>set (map fst (zip ts rs)). fresh t" by (simp only: m)
        from fresh_round [OF this] f(2)
        have "\<forall>t\<in>set (drop_none slots). fresh t" "\<forall>t\<in>set dn. fresh t"
          by (auto simp: s dn)
        with ih r show "\<forall>t\<in>set r. fresh t" by blast
      qed
    qed
  qed
qed


lemma autonomous_decomposition_fresh:
  assumes "autonomous_decomposition fit so ts = Some (Inr completed)" and "\<forall>t\<in>set ts. fresh t"
  shows "\<forall>t\<in>set completed. fresh t"
  using completed_fresh [of fit so ts "[]" "Inr completed"] assms
  by (simp add: autonomous_decomposition_def)

lemma completed_of_terminal:
  "u \<in> set (completed_of (t, fit_once fit so t)) \<Longrightarrow> terminal_state fit so t u"
  by (cases "fit_once fit so t"; cases "fst (fit_once fit so t)")
     (auto simp: completed_of_def terminal_state_def split: if_splits)

lemma zip_map_self: "zip xs (map f xs) = map (\<lambda>x. (x, f x)) xs"
  by (induction xs) auto

lemma loop_terminal_first:
  assumes "decomposition_loop fit so ts c = Some res"
  shows "\<forall>r. res = Inr r \<longrightarrow> (\<forall>t\<in>set ts. ids_ok so t) \<longrightarrow>
           (\<forall>u\<in>set r. u \<in> set c \<or>
              (\<exists>t\<in>set ts. \<exists>k.
                 list_all (\<lambda>j. \<not> terminal_result (fit_once fit so ((next_task fit so ^^ j) t))) [0..<k] \<and>
                 terminal_state fit so ((next_task fit so ^^ k) t) u))"
proof (rule decomposition_loop.raw_induct
    [where P = "\<lambda>fit so ts c res. \<forall>r. res = Inr r \<longrightarrow> (\<forall>t\<in>set ts. ids_ok so t) \<longrightarrow>
           (\<forall>u\<in>set r. u \<in> set c \<or>
              (\<exists>t\<in>set ts. \<exists>k.
                 list_all (\<lambda>j. \<not> terminal_result (fit_once fit so ((next_task fit so ^^ j) t))) [0..<k] \<and>
                 terminal_state fit so ((next_task fit so ^^ k) t) u))", OF _ assms],
    goal_cases)
  case (1 loop fit so ts c res)
  let ?T = "\<lambda>t k u. list_all (\<lambda>j. \<not> terminal_result (fit_once fit so ((next_task fit so ^^ j) t))) [0..<k] \<and>
                 terminal_state fit so ((next_task fit so ^^ k) t) u"
  show ?case
  proof (intro allI impI)
    fix r assume r: "res = Inr r" and ok: "\<forall>t\<in>set ts. ids_ok so t"
    show "\<forall>u\<in>set r. u \<in> set c \<or> (\<exists>t\<in>set ts. \<exists>k. ?T t k u)"
    proof (cases "ts = []")
      case True
      with 1(2) r show ?thesis by auto
    next
      case False
      let ?rs = "map (fit_once fit so) ts"
      let ?pend = "map (next_task fit so) (filter (\<lambda>t. \<not> terminal_result (fit_once fit so t)) ts)"
      let ?fin = "concat (map completed_of (zip ts ?rs))"
      have d: "dispatch fit so ts = Inr ?rs" using ok by (rule dispatch_ok)
      obtain slots dn where a: "assign_results (zip ts ?rs) c = (slots, dn)"
        by (cases "assign_results (zip ts ?rs) c")
      have s: "drop_none slots = ?pend"
        using assign_results_fst [of "zip ts ?rs" c] a by (simp add: pending_round)
      have dn: "dn = c @ ?fin"
        using assign_results_snd [of "zip ts ?rs" c] a by simp
      have "loop fit so ?pend dn = Some res"
        using 1(2) False d a s by simp
      from 1(1) [OF this] r
      have ih: "(\<forall>t\<in>set ?pend. ids_ok so t) \<longrightarrow>
           (\<forall>u\<in>set r. u \<in> set dn \<or> (\<exists>t\<in>set ?pend. \<exists>k. ?T t k u))" by simp
      have "\<forall>t\<in>set ?pend. ids_ok so t" using ok by (auto simp: ids_ok_next_task)
      with ih have ih': "\<forall>u\<in>set r. u \<in> set dn \<or> (\<exists>t\<in>set ?pend. \<exists>k. ?T t k u)" by simp
      show ?thesis
      proof
        fix u assume "u \<in> set r"
        with ih' have "u \<in> set dn \<or> (\<exists>t\<in>set ?pend. \<exists>k. ?T t k u)" by blast
        moreover have "set dn = set c \<union> set ?fin" by (simp only: dn set_append)
        ultimately consider "u \<in> set c" | "u \<in> set ?fin"
          | t k where "t \<in> set ?pend" "?T t k u"
          by blast
        then show "u \<in> set c \<or> (\<exists>t\<in>set ts. \<exists>k. ?T t k u)"
        proof cases
          case 1
          then show ?thesis by simp
        next
          case 2
          then obtain t where t: "t \<in> set ts" "u \<in> set (completed_of (t, fit_once fit so t))"
            by (auto simp: zip_map_self)
          from completed_of_terminal [OF t(2)]
          have "?T t 0 u" by simp
          with t(1) show ?thesis by blast
        next
          case 3
          then obtain t0 where t0: "t0 \<in> set ts" "\<not> terminal_result (fit_once fit so t0)"
            "t = next_task fit so t0" by auto
          have sw: "\<And>j. (next_task fit so ^^ j) (next_task fit so t0) = (next_task fit so ^^ Suc j) t0"
            by (simp add: funpow_swap1)
          have "list_all (\<lambda>j. \<not> terminal_result (fit_once fit so ((next_task fit so ^^ j) t0))) [0..<Suc k]"
          proof -
            have "\<forall>j<Suc k. \<not> terminal_result (fit_once fit so ((next_task fit so ^^ j) t0))"
            proof (intro allI impI)
              fix j assume j: "j < Suc k"
              show "\<not> terminal_result (fit_once fit so ((next_task fit so ^^ j) t0))"
              proof (cases j)
                case 0
                with t0(2) show ?thesis by simp
              next
                case (Suc j')
                with j have "j' < k" by simp
                with 3(2) have "\<not> terminal_result (fit_once fit so ((next_task fit so ^^ j') t))"
                  by (simp add: list_all_iff)
                then have "\<not> terminal_result (fit_once fit so ((next_task fit so ^^ Suc j') t0))"
                  by (simp only: t0(3) sw not_False_eq_True)
                with Suc show ?thesis by blast
              qed
            qed
            then show ?thesis by (simp add: list_all_iff)
          qed
          moreover have "terminal_state fit so ((next_task fit so ^^ Suc k) t0) u"
            using 3(2) by (simp only: t0(3) sw)
          ultimately have "?T t0 (Suc k) u" by simp
          with t0(1) show ?thesis by blast
        qed
      qed
    qed
  qed
qed







subsection \<open>Example runs\<close>

lemmas example_tasks =
  task_a_def task_b_def task_c_def task_d_def task_a_retry_def task_a_done_def task_b_done_def
  task_c_retry_def task_c_done_def task_d_done_def

lemma ids_ok_example: "ids_ok example_so (example_task ix i j noise g tpl gu m)"
  by (simp add: ids_ok_def example_so_def example_task_def)

lemma fit_once_example:
  "fit_once example_fit example_so (example_task ix i j noise g tpl gu m) =
     (let g' = (if np_size gu \<le> 1 then Some g else gu) in
      if 3 < np_size g' then (None, map_option (drop 3) g')
      else if noise \<le> 1 then (Some \<lparr>params = [1, 4, 1], AIC = 100 * noise\<rparr>, g')
      else (None, Some []))"
  by (simp add: fit_once_def decomposition_method_def fit_input_of_def example_so_def
        np_take_def example_fit_def Let_def example_task_def)

lemma example_run_ab:
  "autonomous_decomposition example_fit example_so [task_a, task_b] =
     Some (Inr [task_b_done, task_a_done])"
proof -
  have d1: "dispatch example_fit example_so [task_a, task_b] =
            Inr [(None, Some [3, 12, 1]), (Some \<lparr>params = [1, 4, 1], AIC = 40\<rparr>, Some [4, 11, 2])]"
    by (simp add: dispatch_ok ids_ok_example fit_once_example example_tasks)
  have d2: "dispatch example_fit example_so [task_a_retry] =
            Inr [(Some \<lparr>params = [1, 4, 1], AIC = 50\<rparr>, Some [3, 12, 1])]"
    by (simp add: dispatch_ok ids_ok_example fit_once_example example_tasks)
  have "decomposition_loop example_fit example_so [task_a, task_b] [] =
        decomposition_loop example_fit example_so [task_a_retry] [task_b_done]"
    by (subst loop_step [OF _ d1])
       (simp_all add: pending_of_def completed_of_def add_model_def example_tasks example_task_def)
  also have "\<dots> = decomposition_loop example_fit example_so [] [task_b_done, task_a_done]"
    by (subst loop_step [OF _ d2])
       (simp_all add: pending_of_def completed_of_def add_model_def example_tasks example_task_def)
  finally show ?thesis
    by (simp add: autonomous_decomposition_def loop_done)
qed

lemma example_run_cd:
  "autonomous_decomposition example_fit example_so [task_c, task_d] =
     Some (Inr [task_d_done, task_c_done])"
proof -
  have d1: "dispatch example_fit example_so [task_c, task_d] =
            Inr [(None, Some [3, 12, 1]), (None, Some [])]"
    by (simp add: dispatch_ok ids_ok_example fit_once_example example_tasks)
  have d2: "dispatch example_fit example_so [task_c_retry] = Inr [(None, Some [])]"
    by (simp add: dispatch_ok ids_ok_example fit_once_example example_tasks)
  have "decomposition_loop example_fit example_so [task_c, task_d] [] =
        decomposition_loop example_fit example_so [task_c_retry] [task_d_done]"
    by (subst loop_step [OF _ d1])
       (simp_all add: pending_of_def completed_of_def add_model_def example_tasks example_task_def)
  also have "\<dots> = decomposition_loop example_fit example_so [] [task_d_done, task_c_done]"
    by (subst loop_step [OF _ d2])
       (simp_all add: pending_of_def completed_of_def add_model_def example_tasks example_task_def)
  finally show ?thesis
    by (simp add: autonomous_decomposition_def loop_done)
qed


text \<open>
  A guess set that does not grow is not enough for the loop to end: with a fitter that
  hands back the guesses it was given, the size stays the same and the loop never returns.
\<close>

lemma constant_fit_round:
  "dispatch constant_fit example_so [task_s] = Inr [(None, Some [4, 11, 2])]"
  "concat (map pending_of (zip [task_s] [(None, Some [4, 11, 2])])) = [task_s]"
  "concat (map completed_of (zip [task_s] [(None, Some [4, 11, 2])])) = []"
  by (simp_all add: dispatch_def decomposition_method_def np_take_def example_so_def task_s_def
        example_task_def constant_fit_def pending_of_def completed_of_def Let_def)

lemma constant_fit_never_returns:
  "decomposition_loop constant_fit example_so [task_s] c = None"
proof (rule ccontr)
  assume "decomposition_loop constant_fit example_so [task_s] c \<noteq> None"
  then obtain y where y: "decomposition_loop constant_fit example_so [task_s] c = Some y" by auto
  have "\<not> (constant_fit = constant_fit \<and> example_so = example_so \<and> [task_s] = [task_s])"
  proof (rule decomposition_loop.raw_induct
      [where P = "\<lambda>fit so ts c y. \<not> (fit = constant_fit \<and> so = example_so \<and> ts = [task_s])",
       OF _ y], goal_cases)
    case (1 loop fit so ts c y)
    show ?case
    proof
      assume a: "fit = constant_fit \<and> so = example_so \<and> ts = [task_s]"
      obtain slots dn where s: "assign_results (zip [task_s] [(None, Some [4, 11, 2])]) c = (slots, dn)"
        by (cases "assign_results (zip [task_s] [(None, Some [4, 11, 2])]) c")
      have "drop_none slots = [task_s]"
        using assign_results_fst [of "zip [task_s] [(None, Some [4, 11, 2])]" c] s
        by (simp only: constant_fit_round) simp
      with 1(2) a s have "loop constant_fit example_so [task_s] dn = Some y"
        by (simp add: constant_fit_round)
      from 1(1) [OF this] show False by simp
    qed
  qed
  then show False by simp
qed

section \<open>The scheduler: properties\<close>

text \<open>
  C4. In every iteration of the scheduler the loop over the batch results classifies each
  result paired with its task: a result with a model moves the task, the model attached, to
  the completed list; a result without a model and with an empty guess set moves the task
  to the completed list with no model attached; any other result stores the updated
  guesses on the task, which stays in the list for the next batch. Tasks keep their order.
\<close>

theorem assign_results_classification:
  "snd (assign_results ps completed) = completed @ concat (map completed_of ps) \<and>
   drop_none (fst (assign_results ps completed)) = concat (map pending_of ps)"
  by (simp add: assign_results_snd assign_results_fst)

text \<open>
  C5. For a finite task list and a fitting capability under which every task, fitted again
  and again as the scheduler does, eventually yields a model or an empty guess set, the
  retry loop returns, and its completed list holds every task of the initial list: no task
  is left pending. Every task of the completed list is in a terminal state: it is a task
  of the initial list after some number of fits that sent it back and one last fit that
  either gave a model, which it now holds, or gave no model and an empty guess set.
  (The trimming positions must be channels of the spectra: otherwise the
  fit executor raises.) The hypothesis on the sizes of the guess sets is not needed.
\<close>

theorem retry_loop_terminates:
  assumes "\<forall>t\<in>set ts. ids_ok so t"
    and "\<forall>t\<in>set ts. \<exists>n. settles fit so n t"
  shows "\<exists>completed. autonomous_decomposition fit so ts = Some (Inr completed) \<and>
           length completed = length ts \<and> mset (map core completed) = mset (map core ts) \<and>
           (\<forall>u\<in>set completed. \<exists>t\<in>set ts. \<exists>k.
              list_all (\<lambda>j. \<not> terminal_result (fit_once fit so ((next_task fit so ^^ j) t))) [0..<k] \<and>
              terminal_state fit so ((next_task fit so ^^ k) t) u)"
proof -
  from settles_uniform [OF assms(2)] obtain N where "\<forall>t\<in>set ts. settles fit so N t" ..
  with assms(1) have "\<forall>t\<in>set ts. ids_ok so t \<and> settles fit so N t" by simp
  from loop_terminates [OF this, of "[]"] obtain r where
    r: "decomposition_loop fit so ts [] = Some (Inr r)" "length r = length ts" by auto
  from loop_mset [OF r(1)] have m: "mset (map core r) = mset (map core ts)" by simp
  from loop_terminal_first [OF r(1)] assms(1)
  have "\<forall>u\<in>set r. \<exists>t\<in>set ts. \<exists>k.
              list_all (\<lambda>j. \<not> terminal_result (fit_once fit so ((next_task fit so ^^ j) t))) [0..<k] \<and>
              terminal_state fit so ((next_task fit so ^^ k) t) u" by simp
  with r m show ?thesis by (simp add: autonomous_decomposition_def)
qed

theorem retry_loop_terminates_witness:
  "ids_ok example_so task_a \<and> ids_ok example_so task_b \<and>
   settles example_fit example_so (Suc 0) task_a \<and> settles example_fit example_so 0 task_b \<and>
   (\<exists>completed. autonomous_decomposition example_fit example_so [task_a, task_b] = Some (Inr completed) \<and>
      length completed = length [task_a, task_b] \<and>
      mset (map core completed) = mset (map core [task_a, task_b]) \<and>
      (\<forall>u\<in>set completed. \<exists>t\<in>set [task_a, task_b]. \<exists>k.
         list_all (\<lambda>j. \<not> terminal_result (fit_once example_fit example_so
                       ((next_task example_fit example_so ^^ j) t))) [0..<k] \<and>
         terminal_state example_fit example_so ((next_task example_fit example_so ^^ k) t) u)) \<and>
   autonomous_decomposition example_fit example_so [task_a, task_b] =
     Some (Inr [task_b_done, task_a_done]) \<and>
   terminal_state example_fit example_so task_b task_b_done \<and>
   \<not> terminal_result (fit_once example_fit example_so task_a) \<and>
   next_task example_fit example_so task_a = task_a_retry \<and>
   terminal_state example_fit example_so task_a_retry task_a_done \<and>
   model_from_parent task_a_done = Scalar (Some \<lparr>params = [1, 4, 1], AIC = 50\<rparr>) \<and>
   \<not> terminal_state example_fit example_so task_a task_a"
proof -
  have h1: "\<forall>t\<in>set [task_a, task_b]. ids_ok example_so t"
    by (simp add: example_tasks ids_ok_example)
  have sa: "settles example_fit example_so (Suc 0) task_a"
    by (simp add: next_task_def terminal_result_def example_tasks fit_once_example)
       (simp add: example_task_def fit_once_example [unfolded example_task_def])
  then have a: "\<exists>n. settles example_fit example_so n task_a" ..
  have sb: "settles example_fit example_so 0 task_b"
    by (simp add: terminal_result_def example_tasks fit_once_example)
  then have b: "\<exists>n. settles example_fit example_so n task_b" ..
  from a b have h2: "\<forall>t\<in>set [task_a, task_b]. \<exists>n. settles example_fit example_so n t"
    by simp
  have i: "ids_ok example_so task_a" "ids_ok example_so task_b"
    by (simp_all add: example_tasks ids_ok_example)
  have c: "terminal_state example_fit example_so task_b task_b_done"
    "\<not> terminal_result (fit_once example_fit example_so task_a)"
    "next_task example_fit example_so task_a = task_a_retry"
    "terminal_state example_fit example_so task_a_retry task_a_done"
    "model_from_parent task_a_done = Scalar (Some \<lparr>params = [1, 4, 1], AIC = 50\<rparr>)"
    "\<not> terminal_state example_fit example_so task_a task_a"
    by code_simp+
  from retry_loop_terminates [OF h1 h2] show ?thesis
    using sa sb i c example_run_ab by blast
qed

text \<open>
  C6. When the retry loop returns, the completed list holds exactly one entry for each task
  that entered the loop: apart from the three attributes the scheduler writes (template,
  updated guesses, model), the completed tasks are the initial tasks, each as often as it
  occurs in the initial list.
\<close>

theorem completed_list_complete:
  assumes "autonomous_decomposition fit so ts = Some (Inr completed)"
  shows "mset (map core completed) = mset (map core ts) \<and> length completed = length ts"
proof -
  from assms have "decomposition_loop fit so ts [] = Some (Inr completed)"
    by (simp add: autonomous_decomposition_def)
  from loop_mset [OF this] have m: "mset (map core completed) = mset (map core ts)" by simp
  then have "length (map core completed) = length (map core ts)" by (rule mset_eq_length)
  with m show ?thesis by simp
qed

theorem completed_list_complete_witness:
  "autonomous_decomposition example_fit example_so [task_a, task_b] =
     Some (Inr [task_b_done, task_a_done]) \<and>
   mset (map core [task_b_done, task_a_done]) = mset (map core [task_a, task_b]) \<and>
   length [task_b_done, task_a_done] = length [task_a, task_b]"
  using completed_list_complete [OF example_run_ab] example_run_ab by simp

text \<open>
  C7. The fit executor passes the fitter the task's updated guesses as the current guesses
  exactly when the updated-guesses slot holds more than one value, and the guesses
  inherited from the parent region otherwise; the parent's guesses are always passed as
  they are for the comparison.
\<close>

theorem decomposition_method_guesses:
  assumes "list_all (\<lambda>k. k < length (spectrum indivspec)) specids"
  shows "decomposition_method fit (spectral_axis, specids, fittype, tol, res, indivspec) =
     (let out = fit \<lparr>dec_spectral_axis = spectral_axis,
                     dec_spectrum = map (\<lambda>k. spectrum indivspec ! k) specids,
                     dec_rms = rms indivspec, psktemplate = template indivspec\<rparr>
                  (if 1 < np_size (guesses_updated indivspec) then guesses_updated indivspec
                   else guesses_from_parent indivspec)
                  (guesses_from_parent indivspec) tol res fittype
      in Inr (if validfit out then Some (modeldict out) else None, out_guesses_updated out))"
  using assms by (simp add: decomposition_method_def np_take_def Let_def)

theorem decomposition_method_guesses_witness:
  "list_all (\<lambda>k. k < length (spectrum task_a_retry)) [1, 2, 3] \<and>
   decomposition_method example_fit ([10, 11, 12], [1, 2, 3], ''gaussian'', [2, 3, 1], 1, task_a_retry) =
     (let out = example_fit \<lparr>dec_spectral_axis = [10, 11, 12],
                     dec_spectrum = map (\<lambda>k. spectrum task_a_retry ! k) [1, 2, 3],
                     dec_rms = rms task_a_retry, psktemplate = template task_a_retry\<rparr>
                  (if 1 < np_size (guesses_updated task_a_retry) then guesses_updated task_a_retry
                   else guesses_from_parent task_a_retry)
                  (guesses_from_parent task_a_retry) [2, 3, 1] 1 ''gaussian''
      in Inr (if validfit out then Some (modeldict out) else None, out_guesses_updated out)) \<and>
   1 < np_size (guesses_updated task_a_retry) \<and> \<not> 1 < np_size (guesses_updated task_a)"
proof -
  have h: "list_all (\<lambda>k. k < length (spectrum task_a_retry)) [1, 2, 3]"
    by (simp add: example_tasks example_task_def)
  from decomposition_method_guesses [OF h] h show ?thesis
    by (simp add: example_tasks example_task_def)
qed

text \<open>
  C10. The completed list is ordered by the round in which a task completes, and within a
  round by the position in the batch: the tasks that complete in the first round come
  first, in batch order, and after them comes the completed list of the run on the tasks
  sent back, which are again in batch order. A task that needs another fit therefore comes
  after every task that completed in an earlier round, also when it was generated first,
  and the first candidate of a pixel that the compiler sees is the one that completed
  earliest.
\<close>

theorem completed_order_by_round:
  assumes "autonomous_decomposition fit so ts = Some (Inr completed)" and "ts \<noteq> []"
  shows "\<exists>rs later. dispatch fit so ts = Inr rs \<and>
           completed = concat (map completed_of (zip ts rs)) @ later \<and>
           autonomous_decomposition fit so (concat (map pending_of (zip ts rs))) = Some (Inr later)"
  using loop_first_round [of fit so ts "[]" completed] assms
  by (simp add: autonomous_decomposition_def)


theorem completed_order_by_round_witness:
  "autonomous_decomposition example_fit example_so [task_c, task_d] =
     Some (Inr [task_d_done, task_c_done]) \<and>
   [task_c, task_d] \<noteq> [] \<and>
   (\<exists>rs later. dispatch example_fit example_so [task_c, task_d] = Inr rs \<and>
      [task_d_done, task_c_done] = concat (map completed_of (zip [task_c, task_d] rs)) @ later \<and>
      autonomous_decomposition example_fit example_so (concat (map pending_of (zip [task_c, task_d] rs)))
        = Some (Inr later)) \<and>
   compiled_spectrum (projr (compile_spectra [task_d_done, task_c_done])) 9 =
     Some (set_provenance task_d_done [Scalar 1] [Scalar 4] [Scalar None])"
proof -
  have h: "[task_c, task_d] \<noteq> []" by simp
  have c: "compiled_spectrum (projr (compile_spectra [task_d_done, task_c_done])) 9 =
     Some (set_provenance task_d_done [Scalar 1] [Scalar 4] [Scalar None])" by code_simp
  from completed_order_by_round [OF example_run_cd h] example_run_cd c show ?thesis by blast
qed




section \<open>The compiler: lemmas\<close>

lemma set_np_where_eq: "set (np_where_eq a v) = {j. j < length a \<and> a ! j = v}"
  by (auto simp: np_where_eq_def)

lemma np_where_eq_nonempty: "v \<in> set a \<Longrightarrow> np_where_eq a v \<noteq> []"
proof -
  assume "v \<in> set a"
  then obtain j where "j < length a" "a ! j = v" by (auto simp: in_set_conv_nth)
  then have "j \<in> set (np_where_eq a v)" by (simp add: set_np_where_eq)
  then show ?thesis by auto
qed

lemma np_where_eq_index:
  "j \<in> set (np_where_eq (map index st) v) \<Longrightarrow> j < length st \<and> index (st ! j) = v"
  by (auto simp: set_np_where_eq)

lemma np_take_ok: "\<forall>k\<in>set ids. k < length a \<Longrightarrow> np_take a ids = Inr (map (\<lambda>k. a ! k) ids)"
  by (simp add: np_take_def list_all_iff)

lemma aic_of_fresh: "fresh t \<Longrightarrow> aic_of t = Inr (raic t)"
  by (auto simp: fresh_def aic_of_def raic_def split: pyattr.splits option.splits)

lemma aic_of_list: "model_from_parent t = PyList l \<Longrightarrow> aic_of t = Inl AttributeError"
  by (simp add: aic_of_def)

lemma first_index_less: "v \<in> set xs \<Longrightarrow> first_index xs v < length xs"
  by (induction xs) auto

lemma nth_first_index: "v \<in> set xs \<Longrightarrow> xs ! first_index xs v = v"
  by (induction xs) auto

lemma set_np_unique: "set (np_unique xs) = set xs"
  by (simp add: np_unique_def)

lemma np_unique_nonempty: "xs \<noteq> [] \<Longrightarrow> np_unique xs \<noteq> []"
  using set_np_unique [of xs] by (metis set_empty)

lemma uniqids_less:
  "k \<in> set (snd (np_unique_index xs)) \<Longrightarrow> k < length xs"
  by (auto simp: np_unique_index_def Let_def set_np_unique first_index_less)

lemma uniqids_nonempty: "xs \<noteq> [] \<Longrightarrow> snd (np_unique_index xs) \<noteq> []"
  by (simp add: np_unique_index_def Let_def np_unique_nonempty)

lemma filtered_nonempty:
  "list_ex (\<lambda>a. a \<noteq> None) aics \<Longrightarrow> map the (filter (\<lambda>a. a \<noteq> None) aics) \<noteq> []"
  by (auto simp: list_ex_iff filter_empty_conv)

lemma compilation_method_single:
  assumes "i < length uniq" and "np_where_eq ia (uniq ! i) = [p]" and "p < length st"
  shows "compilation_method (i, ia, uniq, st) =
           Inr (p, st[p := set_provenance (st ! p) [saa_dict_index (st ! p)] [saaindex (st ! p)]
                              [model_from_parent (st ! p)]])"
  using assms by (simp add: compilation_method_def np_take_def Let_def)

lemma compilation_method_multi:
  assumes "i < length uniq" and "idx = np_where_eq ia (uniq ! i)" and "length idx \<noteq> 1"
    and "\<forall>j\<in>set idx. j < length st"
  shows "compilation_method (i, ia, uniq, st) =
     (case collect (map aic_of (map (\<lambda>j. st ! j) idx)) of
        Inl e \<Rightarrow> Inl e
      | Inr aics \<Rightarrow>
          if \<not> list_ex (\<lambda>a. a \<noteq> None) aics then
            (if idx = [] then Inl IndexError
             else Inr (idx ! 0,
                       st[idx ! 0 := set_provenance (st ! (idx ! 0)) [saa_dict_index (st ! (idx ! 0))]
                                       [saaindex (st ! (idx ! 0))] [model_from_parent (st ! (idx ! 0))]]))
          else
            let uniqids = snd (np_unique_index (map the (filter (\<lambda>a. a \<noteq> None) aics)));
                kept = map (\<lambda>k. st ! (idx ! k)) uniqids
            in Inr (idx ! (uniqids ! 0),
                    st[idx ! (uniqids ! 0) :=
                         set_provenance (st ! (idx ! (uniqids ! 0))) (map saa_dict_index kept)
                           (map saaindex kept) (map model_from_parent kept)]))"
proof -
  have t: "np_take st idx = Inr (map (\<lambda>j. st ! j) idx)"
    using assms(4) by (rule np_take_ok)
  show ?thesis
  proof (cases "collect (map aic_of (map (\<lambda>j. st ! j) idx))")
    case (Inl e)
    then show ?thesis
      using assms(1,3) t
      by (simp add: compilation_method_def Let_def flip: assms(2))
  next
    case (Inr aics)
    have len: "length aics = length idx"
      using collect_length [OF Inr] by simp
    show ?thesis
    proof (cases "list_ex (\<lambda>a. a \<noteq> None) aics")
      case False
      then show ?thesis
        using assms(1,3) t Inr
        by (cases idx) (simp_all add: compilation_method_def Let_def flip: assms(2))
    next
      case True
      let ?f = "map the (filter (\<lambda>a. a \<noteq> None) aics)"
      have lf: "length ?f \<le> length idx" using len by (simp flip: len)
      have ne: "snd (np_unique_index ?f) \<noteq> []"
        using True by (intro uniqids_nonempty filtered_nonempty)
      have lt: "\<forall>k\<in>set (snd (np_unique_index ?f)). k < length idx"
        using uniqids_less [of _ ?f] lf by fastforce
      then have k0: "snd (np_unique_index ?f) ! 0 < length idx"
        using ne by (cases "snd (np_unique_index ?f)") auto
      have m: "\<And>f. map (f \<circ> (!) (map ((!) st) idx)) (snd (np_unique_index ?f)) =
                    map (f \<circ> (\<lambda>k. st ! (idx ! k))) (snd (np_unique_index ?f))"
        using lt by (intro map_cong) auto
      show ?thesis
        using assms(1,3) t Inr True k0
        by (simp add: compilation_method_def Let_def case_prod_beta m del: not_None_eq flip: assms(2))
    qed
  qed
qed


lemma collect_aic_fresh:
  assumes "\<forall>j\<in>set idx. fresh (st ! j)"
  shows "collect (map aic_of (map (\<lambda>j. st ! j) idx)) = Inr (map (\<lambda>j. raic (st ! j)) idx)"
proof -
  have "collect (map (\<lambda>j. aic_of (st ! j)) idx) = Inr (map (\<lambda>j. raic (st ! j)) idx)"
    using assms by (intro collect_map_ok) (simp add: aic_of_fresh)
  then show ?thesis by (simp add: comp_def)
qed

lemma compilation_method_all_null:
  assumes "i < length uniq" and "idx = np_where_eq (map index st) (uniq ! i)"
    and "2 \<le> length idx" and "\<forall>j\<in>set idx. model_from_parent (st ! j) = Scalar None"
  shows "compilation_method (i, map index st, uniq, st) =
           Inr (hd idx, st[hd idx := set_provenance (st ! hd idx) [saa_dict_index (st ! hd idx)]
                                       [saaindex (st ! hd idx)] [Scalar None]])"
proof -
  have r: "\<forall>j\<in>set idx. j < length st"
    using assms(2) by (auto dest: np_where_eq_index)
  have f: "\<forall>j\<in>set idx. fresh (st ! j)" using assms(4) by (simp add: fresh_def)
  have n: "\<forall>j\<in>set idx. raic (st ! j) = None" using assms(4) by (simp add: raic_def)
  have ne: "idx \<noteq> []" using assms(3) by auto
  then have h: "idx ! 0 = hd idx" by (simp add: hd_conv_nth)
  have m: "model_from_parent (st ! hd idx) = Scalar None" using assms(4) ne by simp
  have "length idx \<noteq> 1" using assms(3) by simp
  then show ?thesis
    using n ne
    by (subst compilation_method_multi [OF assms(1,2) _ r], simp, subst collect_aic_fresh [OF f])
       (simp add: list_ex_iff h m)
qed

lemma find_first_index:
  "a \<in> set (map g xs) \<Longrightarrow> find (\<lambda>x. g x = a) xs = Some (xs ! first_index (map g xs) a)"
  by (induction xs) auto

lemma find_append_left:
  "find Q xs = Some x \<Longrightarrow> find Q (xs @ ys) = Some x"
  by (induction xs) auto

lemma hd_sorted_Min: "sorted ys \<Longrightarrow> ys \<noteq> [] \<Longrightarrow> hd ys = Min (set ys)"
  by (cases ys) (auto intro!: Min_eqI [symmetric])

lemma hd_np_unique: "xs \<noteq> [] \<Longrightarrow> hd (np_unique xs) = Min (set xs)"
  using hd_sorted_Min [of "np_unique xs"] by (simp add: np_unique_def np_unique_nonempty [unfolded np_unique_def])


lemma first_modeled:
  fixes st :: "individual_spectrum list"
  defines "P \<equiv> \<lambda>j. raic (st ! j) \<noteq> None"
  assumes "a \<in> set (map (\<lambda>j. the (raic (st ! j))) (takeWhile P cands))"
  shows "find (\<lambda>j. raic (st ! j) = Some a) cands =
           Some (cands ! first_index (map (\<lambda>j. the (raic (st ! j))) (takeWhile P cands)) a)"
proof -
  let ?m = "takeWhile P cands"
  let ?g = "\<lambda>j. the (raic (st ! j))"
  let ?k = "first_index (map ?g ?m) a"
  have k: "?k < length ?m" using first_index_less [OF assms(2)] by simp
  have "\<And>j. j \<in> set ?m \<Longrightarrow> (raic (st ! j) = Some a) = (?g j = a)"
    by (auto simp: P_def dest!: set_takeWhileD)
  then have "find (\<lambda>j. raic (st ! j) = Some a) ?m = find (\<lambda>j. ?g j = a) ?m"
    by (intro find_cong) auto
  also have "\<dots> = Some (?m ! ?k)" using assms(2) by (rule find_first_index)
  also have "?m ! ?k = cands ! ?k" using k by (rule takeWhile_nth)
  finally have "find (\<lambda>j. raic (st ! j) = Some a) (?m @ dropWhile P cands) = Some (cands ! ?k)"
    by (rule find_append_left)
  then show ?thesis by simp
qed

lemma compilation_method_modeled:
  assumes i: "i < length uniq"
    and cands: "cands = np_where_eq (map index st) (uniq ! i)"
    and two: "2 \<le> length cands"
    and fr: "\<forall>j\<in>set cands. fresh (st ! j)"
    and modeled: "modeled = takeWhile (\<lambda>j. raic (st ! j) \<noteq> None) cands"
    and first: "filter (\<lambda>j. raic (st ! j) \<noteq> None) cands = modeled"
    and some: "modeled \<noteq> []"
    and vals: "vals = map (\<lambda>j. the (raic (st ! j))) modeled"
    and kept: "kept = map (\<lambda>a. the (find (\<lambda>j. raic (st ! j) = Some a) cands)) (np_unique vals)"
  shows "compilation_method (i, map index st, uniq, st) =
           Inr (hd kept, st[hd kept := set_provenance (st ! hd kept)
                                         (map (\<lambda>j. saa_dict_index (st ! j)) kept)
                                         (map (\<lambda>j. saaindex (st ! j)) kept)
                                         (map (\<lambda>j. model_from_parent (st ! j)) kept)])"
    and "raic (st ! hd kept) = Some (Min (set vals))"
proof -
  let ?aics = "map (\<lambda>j. raic (st ! j)) cands"
  let ?U = "snd (np_unique_index (map the (filter (\<lambda>a. a \<noteq> None) ?aics)))"
  have r: "\<forall>j\<in>set cands. j < length st"
    using cands by (auto dest: np_where_eq_index)
  have l: "length cands \<noteq> 1" using two by simp
  have f: "map the (filter (\<lambda>a. a \<noteq> None) ?aics) = vals"
    by (simp add: filter_map comp_def vals first del: not_None_eq)
  have vne: "vals \<noteq> []" using some vals by simp
  have une: "np_unique vals \<noteq> []" using vne by (rule np_unique_nonempty)
  have U: "?U = map (first_index vals) (np_unique vals)"
    by (simp only: f) (simp add: np_unique_index_def Let_def)
  have ex: "list_ex (\<lambda>a. a \<noteq> None) ?aics"
  proof -
    from some obtain j where "j \<in> set modeled" by (cases modeled) auto
    then have "j \<in> set cands" "raic (st ! j) \<noteq> None"
      using first by (auto simp del: not_None_eq)
    then show ?thesis by (auto simp: list_ex_iff simp del: not_None_eq)
  qed
  have fi: "\<And>a. a \<in> set (np_unique vals) \<Longrightarrow>
              cands ! first_index vals a = the (find (\<lambda>j. raic (st ! j) = Some a) cands)"
    using first_modeled [of _ st cands] by (simp add: set_np_unique vals modeled del: not_None_eq)
  have k: "map (\<lambda>k. cands ! k) ?U = kept"
    unfolding U kept by (simp add: fi comp_def)
  have k': "map g (map (\<lambda>k. st ! (cands ! k)) ?U) = map (\<lambda>j. g (st ! j)) kept" for g
  proof -
    have "map (\<lambda>j. g (st ! j)) (map (\<lambda>k. cands ! k) ?U) = map (\<lambda>j. g (st ! j)) kept"
      by (simp only: k)
    then show ?thesis by (simp only: map_map comp_def)
  qed
  have kne: "kept \<noteq> []" using une kept by simp
  have h: "cands ! (?U ! 0) = hd kept"
  proof -
    have "?U \<noteq> []" using une by (simp only: U) simp
    then have "map (\<lambda>k. cands ! k) ?U ! 0 = cands ! (?U ! 0)" by (intro nth_map) simp
    moreover have "hd kept = kept ! 0" using kne by (rule hd_conv_nth)
    ultimately show ?thesis by (simp only: k)
  qed
  show "compilation_method (i, map index st, uniq, st) =
           Inr (hd kept, st[hd kept := set_provenance (st ! hd kept)
                                         (map (\<lambda>j. saa_dict_index (st ! j)) kept)
                                         (map (\<lambda>j. saaindex (st ! j)) kept)
                                         (map (\<lambda>j. model_from_parent (st ! j)) kept)])"
    by (subst compilation_method_multi [OF i cands l r], subst collect_aic_fresh [OF fr])
       (simp only: sum.case ex not_True_eq_False if_False Let_def h
          k' [of saa_dict_index] k' [of saaindex] k' [of model_from_parent])
  have "hd kept = the (find (\<lambda>j. raic (st ! j) = Some (hd (np_unique vals))) cands)"
    using une by (simp add: kept hd_map)
  moreover have "hd (np_unique vals) \<in> set (np_unique vals)" using une by simp
  then have "find (\<lambda>j. raic (st ! j) = Some (hd (np_unique vals))) cands
             = Some (cands ! first_index vals (hd (np_unique vals)))"
    using first_modeled [of "hd (np_unique vals)" st cands]
    by (simp add: set_np_unique vals modeled del: not_None_eq)
  ultimately have "raic (st ! hd kept) = Some (hd (np_unique vals))"
    by (auto simp: find_Some_iff)
  then show "raic (st ! hd kept) = Some (Min (set vals))"
    by (simp add: hd_np_unique [OF vne])
qed


lemma set_provenance_index [simp]: "index (set_provenance t a b c) = index t"
  by (simp add: set_provenance_def)

lemma compilation_method_shape:
  assumes "compilation_method (i, map index st, uniq, st) = Inr (r, st')"
  shows "i < length uniq \<and> r < length st \<and> index (st ! r) = uniq ! i \<and>
         (\<exists>a b c. st' = st[r := set_provenance (st ! r) a b c])"
proof -
  let ?idx = "np_where_eq (map index st) (uniq ! i)"
  have i: "i < length uniq"
    using assms by (auto simp: compilation_method_def split: if_splits)
  have r: "\<forall>j\<in>set ?idx. j < length st"
    by (auto dest: np_where_eq_index)
  have mem: "\<And>k. k < length ?idx \<Longrightarrow> ?idx ! k < length st \<and> index (st ! (?idx ! k)) = uniq ! i"
    using np_where_eq_index [of _ st "uniq ! i"] by (meson nth_mem)
  show ?thesis
  proof (cases "length ?idx = 1")
    case True
    then obtain p where p: "?idx = [p]" by (cases ?idx) auto
    then have "p < length st \<and> index (st ! p) = uniq ! i"
      using mem [of 0] by simp
    with assms i p show ?thesis
      by (auto simp: compilation_method_single [OF i p])
  next
    case False
    note multi = compilation_method_multi [OF i refl False r]
    show ?thesis
    proof (cases "collect (map aic_of (map (\<lambda>j. st ! j) ?idx))")
      case (Inl e)
      with assms multi show ?thesis by simp
    next
      case (Inr aics)
      have len: "length aics = length ?idx" using collect_length [OF Inr] by simp
      show ?thesis
      proof (cases "list_ex (\<lambda>a. a \<noteq> None) aics")
        case False
        with assms multi Inr have ne: "?idx \<noteq> []" by (auto split: if_splits)
        then have "0 < length ?idx" by simp
        from mem [OF this] False assms multi Inr ne i show ?thesis
          by (auto simp del: not_None_eq)
      next
        case True
        let ?f = "map the (filter (\<lambda>a. a \<noteq> None) aics)"
        let ?U = "snd (np_unique_index ?f)"
        have "?U \<noteq> []" using True by (intro uniqids_nonempty filtered_nonempty)
        then have "?U ! 0 \<in> set ?U" by simp
        then have "?U ! 0 < length ?f" by (rule uniqids_less)
        also have "\<dots> \<le> length ?idx" by (simp flip: len)
        finally have "?U ! 0 < length ?idx" .
        from mem [OF this] True assms multi Inr i show ?thesis
          by (auto simp: Let_def simp del: not_None_eq)
      qed
    qed
  qed
qed

lemma compilation_method_fresh_ok:
  assumes "i < length uniq" and "uniq ! i \<in> set (map index st)"
    and "length (np_where_eq (map index st) (uniq ! i)) = 1 \<or>
         (\<forall>t\<in>set st. index t = uniq ! i \<longrightarrow> fresh t)"
  shows "\<exists>r st'. compilation_method (i, map index st, uniq, st) = Inr (r, st')"
proof -
  let ?idx = "np_where_eq (map index st) (uniq ! i)"
  have r: "\<forall>j\<in>set ?idx. j < length st"
    by (auto dest: np_where_eq_index)
  have ne: "?idx \<noteq> []" using assms(2) by (rule np_where_eq_nonempty)
  show ?thesis
  proof (cases "length ?idx = 1")
    case True
    then obtain p where p: "?idx = [p]" by (cases ?idx) auto
    then have "p < length st" using r by simp
    from compilation_method_single [OF assms(1) p this] show ?thesis by blast
  next
    case False
    with assms(3) have "\<forall>t\<in>set st. index t = uniq ! i \<longrightarrow> fresh t" by simp
    then have f: "\<forall>j\<in>set ?idx. fresh (st ! j)"
      by (auto dest!: np_where_eq_index)
    show ?thesis
      using ne
      by (subst compilation_method_multi [OF assms(1) refl False r], subst collect_aic_fresh [OF f])
         (simp add: Let_def del: not_None_eq)
  qed
qed

lemma index_update_provenance:
  "map index (st[r := set_provenance (st ! r) a b c]) = map index st"
proof (rule nth_equalityI)
  show "length (map index (st[r := set_provenance (st ! r) a b c])) = length (map index st)"
    by simp
  fix j assume "j < length (map index (st[r := set_provenance (st ! r) a b c]))"
  then show "map index (st[r := set_provenance (st ! r) a b c]) ! j = map index st ! j"
    by (cases "j = r") simp_all
qed

lemma compilation_method_index:
  "compilation_method (i, map index st, uniq, st) = Inr (r, st') \<Longrightarrow> map index st' = map index st"
  using compilation_method_shape [of i st uniq r st'] by (auto simp: index_update_provenance)

lemma compile_each_ok:
  assumes "\<forall>i\<in>set js. i < length uniq \<and> uniq ! i \<in> set (map index st)"
    and "distinct (map (\<lambda>i. uniq ! i) js)"
    and "\<forall>i\<in>set js. length (np_where_eq (map index st) (uniq ! i)) = 1 \<or>
           (\<forall>t\<in>set st. index t = uniq ! i \<longrightarrow> fresh t)"
  shows "\<exists>rs st'. compile_each js (map index st) uniq st = Inr (rs, st') \<and>
           map index st' = map index st \<and>
           map (\<lambda>r. map index st ! r) rs = map (\<lambda>i. uniq ! i) js \<and>
           (\<forall>r\<in>set rs. r < length st)"
  using assms
proof (induction js arbitrary: st)
  case Nil
  show ?case by simp
next
  case (Cons i js)
  have i: "i < length uniq" "uniq ! i \<in> set (map index st)" using Cons.prems(1) by auto
  have "length (np_where_eq (map index st) (uniq ! i)) = 1 \<or>
        (\<forall>t\<in>set st. index t = uniq ! i \<longrightarrow> fresh t)" using Cons.prems(3) by simp
  from compilation_method_fresh_ok [OF i this] obtain r st1 where
    cm: "compilation_method (i, map index st, uniq, st) = Inr (r, st1)" by blast
  from compilation_method_shape [OF cm] obtain a b c where
    r: "r < length st" "index (st ! r) = uniq ! i"
    and st1: "st1 = st[r := set_provenance (st ! r) a b c]" by blast
  have ix: "map index st1 = map index st" using cm by (rule compilation_method_index)
  have p1: "\<forall>k\<in>set js. k < length uniq \<and> uniq ! k \<in> set (map index st1)"
    using Cons.prems(1) by (simp only: ix) simp
  have p2: "distinct (map (\<lambda>i. uniq ! i) js)" using Cons.prems(2) by simp
  have p3: "\<forall>k\<in>set js. length (np_where_eq (map index st1) (uniq ! k)) = 1 \<or>
              (\<forall>t\<in>set st1. index t = uniq ! k \<longrightarrow> fresh t)"
  proof
    fix k assume k: "k \<in> set js"
    have "uniq ! i \<notin> (\<lambda>i. uniq ! i) ` set js" using Cons.prems(2) by simp
    with k have ne: "uniq ! k \<noteq> uniq ! i" by (metis imageI)
    from Cons.prems(3) k
    consider "length (np_where_eq (map index st) (uniq ! k)) = 1"
      | "\<forall>t\<in>set st. index t = uniq ! k \<longrightarrow> fresh t" by auto
    then show "length (np_where_eq (map index st1) (uniq ! k)) = 1 \<or>
               (\<forall>t\<in>set st1. index t = uniq ! k \<longrightarrow> fresh t)"
    proof cases
      case 1
      then show ?thesis by (simp add: ix)
    next
      case 2
      have "\<forall>t\<in>set st1. index t = uniq ! k \<longrightarrow> fresh t"
      proof (intro ballI impI)
        fix t assume t: "t \<in> set st1" and e: "index t = uniq ! k"
        with ne r(2) have "t \<noteq> set_provenance (st ! r) a b c" by auto
        with t have "t \<in> set st" using set_update_subset_insert [of st r] by (auto simp: st1)
        with 2 e show "fresh t" by simp
      qed
      then show ?thesis ..
    qed
  qed
  from Cons.IH [OF p1 p2 p3] obtain rs st' where
    ih: "compile_each js (map index st1) uniq st1 = Inr (rs, st')"
        "map index st' = map index st1"
        "map (\<lambda>r. map index st1 ! r) rs = map (\<lambda>i. uniq ! i) js"
        "\<forall>r\<in>set rs. r < length st1" by blast
  have "compile_each (i # js) (map index st) uniq st = Inr (r # rs, st')"
    using cm ih(1) by (simp add: ix)
  moreover have "map index st ! r = uniq ! i" using r by simp
  moreover have "length st1 = length st" by (simp add: st1)
  ultimately show ?case using ih r by (auto simp: ix)
qed

lemma dom_fold_upd:
  "dom (fold (\<lambda>r d. d(f r \<mapsto> r)) rs d0) = dom d0 \<union> f ` set rs"
  by (induction rs arbitrary: d0) auto

lemma fold_upd_Some:
  "fold (\<lambda>r d. d(f r \<mapsto> r)) rs d0 k = Some r \<Longrightarrow> d0 k = Some r \<or> (r \<in> set rs \<and> f r = k)"
  by (induction rs arbitrary: d0) (fastforce split: if_splits)+

lemma uniq_facts:
  "set (sort (np_unique a)) = set a" "distinct (sort (np_unique a))"
  by (simp_all add: np_unique_def)

lemma compilation_method_local:
  assumes cm: "compilation_method (i, map index st, uniq, st) = Inr (r, st')"
    and ix: "map index st1 = map index st"
    and agree: "\<forall>j<length st. index (st ! j) = uniq ! i \<longrightarrow> st1 ! j = st ! j"
  shows "compilation_method (i, map index st1, uniq, st1) = Inr (r, st1[r := st' ! r])"
proof -
  let ?idx = "np_where_eq (map index st) (uniq ! i)"
  have len: "length st1 = length st" using ix by (metis length_map)
  have i: "i < length uniq" using compilation_method_shape [OF cm] by simp
  have r: "\<forall>j\<in>set ?idx. j < length st" by (auto dest: np_where_eq_index)
  then have r1: "\<forall>j\<in>set ?idx. j < length st1" by (simp add: len)
  have same: "\<And>j. j \<in> set ?idx \<Longrightarrow> st1 ! j = st ! j"
    using agree by (auto dest: np_where_eq_index)
  have nth: "\<And>k. k < length ?idx \<Longrightarrow> st1 ! (?idx ! k) = st ! (?idx ! k)"
    using same by simp
  have lt: "\<And>k. k < length ?idx \<Longrightarrow> ?idx ! k < length st"
    using r by simp
  have sub: "map (\<lambda>j. st1 ! j) ?idx = map (\<lambda>j. st ! j) ?idx"
    using same by (intro map_cong) auto
  show ?thesis
  proof (cases "length ?idx = 1")
    case True
    then obtain p where p: "?idx = [p]" by (cases ?idx) auto
    then have pl: "p < length st" and ps: "st1 ! p = st ! p" using r same by simp_all
    have "compilation_method (i, map index st1, uniq, st1) =
            Inr (p, st1[p := set_provenance (st1 ! p) [saa_dict_index (st1 ! p)] [saaindex (st1 ! p)]
                               [model_from_parent (st1 ! p)]])"
      using p pl by (intro compilation_method_single [OF i]) (simp_all add: ix len)
    moreover have "r = p \<and> st' = st[p := set_provenance (st ! p) [saa_dict_index (st ! p)]
                               [saaindex (st ! p)] [model_from_parent (st ! p)]]"
      using cm by (auto simp: compilation_method_single [OF i p pl])
    ultimately show ?thesis using pl by (simp add: ps)
  next
    case False
    note m = compilation_method_multi [OF i refl False r]
    have e: "?idx = np_where_eq (map index st1) (uniq ! i)" by (simp add: ix)
    note m1 = compilation_method_multi [OF i e False r1, unfolded sub]
    show ?thesis
    proof (cases "collect (map aic_of (map (\<lambda>j. st ! j) ?idx))")
      case (Inl e)
      with cm m show ?thesis by simp
    next
      case (Inr aics)
      have la: "length aics = length ?idx" using collect_length [OF Inr] by simp
      show ?thesis
      proof (cases "list_ex (\<lambda>a. a \<noteq> None) aics")
        case False
        with cm m Inr have ne: "?idx \<noteq> []" by (auto split: if_splits)
        then have z: "0 < length ?idx" by simp
        have "r = ?idx ! 0 \<and> st' = st[?idx ! 0 := set_provenance (st ! (?idx ! 0)) [saa_dict_index (st ! (?idx ! 0))]
                                       [saaindex (st ! (?idx ! 0))] [model_from_parent (st ! (?idx ! 0))]]"
          using cm m Inr False ne by (auto simp del: not_None_eq)
        then show ?thesis
          using lt [OF z] nth [OF z] Inr False ne
          by (simp only: m1) (simp del: not_None_eq)
      next
        case True
        let ?U = "snd (np_unique_index (map the (filter (\<lambda>a. a \<noteq> None) aics)))"
        have "?U \<noteq> []" using True by (intro uniqids_nonempty filtered_nonempty)
        then have "?U ! 0 \<in> set ?U" by simp
        have ul: "\<And>k. k \<in> set ?U \<Longrightarrow> k < length ?idx"
          using uniqids_less [of _ "map the (filter (\<lambda>a. a \<noteq> None) aics)"] la
          by (metis le_trans length_filter_le length_map not_le_imp_less not_less)
        then have z: "?U ! 0 < length ?idx" using \<open>?U ! 0 \<in> set ?U\<close> by simp
        have k: "\<And>g. map (g \<circ> (\<lambda>k. st1 ! (?idx ! k))) ?U = map (g \<circ> (\<lambda>k. st ! (?idx ! k))) ?U"
          using ul nth by (intro map_cong) auto
        have "r = ?idx ! (?U ! 0) \<and>
              st' = st[?idx ! (?U ! 0) :=
                         set_provenance (st ! (?idx ! (?U ! 0)))
                           (map saa_dict_index (map (\<lambda>k. st ! (?idx ! k)) ?U))
                           (map saaindex (map (\<lambda>k. st ! (?idx ! k)) ?U))
                           (map model_from_parent (map (\<lambda>k. st ! (?idx ! k)) ?U))]"
          using cm m Inr True by (auto simp: Let_def simp del: not_None_eq)
        then show ?thesis
          using lt [OF z] nth [OF z] Inr True
          by (simp only: m1) (simp add: Let_def k del: not_None_eq)
      qed
    qed
  qed
qed

lemma compile_each_Cons_Inr:
  assumes "compile_each (i # js) ia uniq st = Inr (rs, st')"
  obtains r st1 rs' where "compilation_method (i, ia, uniq, st) = Inr (r, st1)"
    and "compile_each js ia uniq st1 = Inr (rs', st')" and "rs = r # rs'"
  using assms by (auto split: sum.splits prod.splits)

lemma compile_each_frame:
  assumes "compile_each js (map index st) uniq st = Inr (rs, st')"
    and "\<forall>i\<in>set js. uniq ! i \<noteq> v"
  shows "map index st' = map index st \<and> length rs = length js \<and>
         (\<forall>j<length st. index (st ! j) = v \<longrightarrow> st' ! j = st ! j)"
  using assms
proof (induction js arbitrary: st rs)
  case Nil
  then show ?case by simp
next
  case (Cons i js)
  from Cons.prems(1) obtain r st1 rs' where
    cm: "compilation_method (i, map index st, uniq, st) = Inr (r, st1)"
    and ce: "compile_each js (map index st) uniq st1 = Inr (rs', st')"
    and rs: "rs = r # rs'" by (rule compile_each_Cons_Inr)
  from compilation_method_shape [OF cm] obtain a b c where
    r: "r < length st" "index (st ! r) = uniq ! i"
    and st1: "st1 = st[r := set_provenance (st ! r) a b c]" by blast
  have ix: "map index st1 = map index st" using cm by (rule compilation_method_index)
  have "compile_each js (map index st1) uniq st1 = Inr (rs', st')" using ce by (simp add: ix)
  from Cons.IH [OF this] Cons.prems(2)
  have ih: "map index st' = map index st1" "length rs' = length js"
    "\<forall>j<length st1. index (st1 ! j) = v \<longrightarrow> st' ! j = st1 ! j" by simp_all
  have "uniq ! i \<noteq> v" using Cons.prems(2) by simp
  then have "\<forall>j<length st. index (st ! j) = v \<longrightarrow> st1 ! j = st ! j \<and> index (st1 ! j) = v"
    using r by (auto simp: st1 nth_list_update)
  moreover have "length st1 = length st" by (simp add: st1)
  ultimately show ?case using ih rs ix by auto
qed

lemma compile_each_append:
  "compile_each (xs @ ys) ia uniq st =
     (case compile_each xs ia uniq st of
        Inl e \<Rightarrow> Inl e
      | Inr (r1, st1) \<Rightarrow>
          (case compile_each ys ia uniq st1 of
             Inl e \<Rightarrow> Inl e
           | Inr (r2, st2) \<Rightarrow> Inr (r1 @ r2, st2)))"
  by (induction xs arbitrary: st) (auto split: sum.splits prod.splits)

lemma compile_each_at:
  assumes ce: "compile_each [0..<length uniq] (map index st) uniq st = Inr (rs, st')"
    and d: "distinct uniq" and i: "i < length uniq"
    and cm: "compilation_method (i, map index st, uniq, st) = Inr (r, s)"
  shows "rs ! i = r \<and> st' ! r = s ! r"
proof -
  let ?ia = "map index st"
  have split: "[0..<length uniq] = [0..<i] @ i # [Suc i..<length uniq]"
    using i by (metis upt_conv_Cons upt_add_eq_append zero_le le_add_diff_inverse less_imp_le_nat)
  from ce obtain r1 st1 r2 where
    a: "compile_each [0..<i] ?ia uniq st = Inr (r1, st1)"
    and b: "compile_each (i # [Suc i..<length uniq]) ?ia uniq st1 = Inr (r2, st')"
    and rs: "rs = r1 @ r2"
    by (auto simp: split compile_each_append split: sum.splits prod.splits)
  from b obtain r' st2 r3 where
    c: "compilation_method (i, ?ia, uniq, st1) = Inr (r', st2)"
    and e: "compile_each [Suc i..<length uniq] ?ia uniq st2 = Inr (r3, st')"
    and r2: "r2 = r' # r3" by (rule compile_each_Cons_Inr)
  have ne1: "\<forall>k\<in>set [0..<i]. uniq ! k \<noteq> uniq ! i"
    using d i by (auto simp: nth_eq_iff_index_eq)
  have ne2: "\<forall>k\<in>set [Suc i..<length uniq]. uniq ! k \<noteq> uniq ! i"
    using d i by (auto simp: nth_eq_iff_index_eq)
  from compile_each_frame [OF a ne1]
  have f1: "map index st1 = ?ia" "length r1 = i"
    "\<forall>j<length st. index (st ! j) = uniq ! i \<longrightarrow> st1 ! j = st ! j" by simp_all
  from compilation_method_local [OF cm f1(1) f1(3)] c
  have r': "r' = r" and st2: "st2 = st1[r := s ! r]" by (simp_all add: f1(1))
  from compilation_method_shape [OF cm] have rl: "r < length st" "index (st ! r) = uniq ! i"
    by simp_all
  have l1: "length st1 = length st" using f1(1) by (metis length_map)
  have ix2: "map index st2 = ?ia"
    using c compilation_method_index [of i st1 uniq r' st2] by (simp add: f1(1))
  have l2: "length st2 = length st" using ix2 by (metis length_map)
  have "compile_each [Suc i..<length uniq] (map index st2) uniq st2 = Inr (r3, st')"
    using e by (simp add: ix2)
  from compile_each_frame [OF this ne2]
  have f2: "\<forall>j<length st2. index (st2 ! j) = uniq ! i \<longrightarrow> st' ! j = st2 ! j" by simp
  have "index (st2 ! r) = uniq ! i"
    using rl l2 ix2 by (metis nth_map)
  with f2 rl l2 have "st' ! r = st2 ! r" by simp
  also have "\<dots> = s ! r" using rl l1 by (simp add: st2)
  finally have "st' ! r = s ! r" .
  moreover have "rs ! i = r" using f1(2) by (simp add: rs r2 r' nth_append)
  ultimately show ?thesis by simp
qed

lemma fold_upd_other:
  "k \<notin> f ` set rs \<Longrightarrow> fold (\<lambda>r d. d(f r \<mapsto> r)) rs d0 k = d0 k"
  by (induction rs arbitrary: d0) auto

lemma fold_upd_distinct:
  "distinct (map f rs) \<Longrightarrow> n < length rs \<Longrightarrow>
   fold (\<lambda>r d. d(f r \<mapsto> r)) rs d0 (f (rs ! n)) = Some (rs ! n)"
proof (induction rs arbitrary: d0 n)
  case Nil
  then show ?case by simp
next
  case (Cons x xs)
  show ?case
  proof (cases n)
    case 0
    have "x = (x # xs) ! n" using 0 by simp
    moreover have "f x \<notin> f ` set xs" using Cons.prems(1) by simp
    then have "fold (\<lambda>r d. d(f r \<mapsto> r)) xs (d0(f x \<mapsto> x)) (f x) = Some x"
      by (simp add: fold_upd_other)
    ultimately show ?thesis using 0 by (simp del: fun_upd_apply)
  next
    case (Suc m)
    with Cons show ?thesis by simp
  qed
qed

lemma compile_spectra_entries:
  assumes ok: "\<forall>v\<in>set (map index st). length (np_where_eq (map index st) v) = 1 \<or>
                 (\<forall>t\<in>set st. index t = v \<longrightarrow> fresh t)"
    and uniq: "uniq = sort (np_unique (map index st))"
  shows "\<exists>st' d. compile_spectra st = Inr (st', d) \<and> dom d = set (map index st) \<and>
           map index st' = map index st \<and>
           (\<forall>i r s. i < length uniq \<and> compilation_method (i, map index st, uniq, st) = Inr (r, s) \<longrightarrow>
              d (uniq ! i) = Some r \<and> st' ! r = s ! r)"
proof -
  let ?ia = "map index st"
  have u: "map (\<lambda>i. uniq ! i) [0..<length uniq] = uniq" by (rule map_nth)
  have d: "distinct uniq" and su: "set uniq = set ?ia"
    by (simp_all only: uniq uniq_facts)
  have p1: "\<forall>i\<in>set [0..<length uniq]. i < length uniq \<and> uniq ! i \<in> set ?ia"
    using su by (metis atLeastLessThan_iff nth_mem set_upt)
  have p2: "distinct (map (\<lambda>i. uniq ! i) [0..<length uniq])" by (simp only: u d)
  have p3: "\<forall>i\<in>set [0..<length uniq]. length (np_where_eq ?ia (uniq ! i)) = 1 \<or>
              (\<forall>t\<in>set st. index t = uniq ! i \<longrightarrow> fresh t)"
    using ok p1 by blast
  from compile_each_ok [OF p1 p2 p3] obtain rs st' where
    ce: "compile_each [0..<length uniq] ?ia uniq st = Inr (rs, st')"
    and ix: "map index st' = ?ia"
    and keys: "map (\<lambda>r. ?ia ! r) rs = uniq"
    and lt: "\<forall>r\<in>set rs. r < length st" by (auto simp only: u)
  let ?d = "fold (\<lambda>r indiv_dict. indiv_dict(index (st' ! r) \<mapsto> r)) rs Map.empty"
  have cs: "compile_spectra st = Inr (st', ?d)"
    unfolding compile_spectra_def Let_def uniq [symmetric] by (simp add: ce)
  have len: "length st' = length st" using ix by (metis length_map)
  have key: "\<And>r. r \<in> set rs \<Longrightarrow> index (st' ! r) = ?ia ! r"
    using lt len ix by (metis nth_map)
  have k2: "map (\<lambda>r. index (st' ! r)) rs = uniq"
    using key keys by (metis (no_types, lifting) map_eq_conv)
  have lrs: "length rs = length uniq" using keys by (metis length_map)
  have "dom ?d = (\<lambda>r. index (st' ! r)) ` set rs" by (simp add: dom_fold_upd)
  also have "\<dots> = set (map (\<lambda>r. index (st' ! r)) rs)" by simp
  also have "\<dots> = set ?ia" by (simp only: k2 su)
  finally have dom: "dom ?d = set ?ia" .
  have "d' (uniq ! i) = Some r \<and> st' ! r = s ! r"
    if i: "i < length uniq" and cm: "compilation_method (i, ?ia, uniq, st) = Inr (r, s)"
      and d': "d' = ?d" for i r s d'
  proof -
    from compile_each_at [OF ce d i cm] have at: "rs ! i = r" "st' ! r = s ! r" by simp_all
    have "?d (index (st' ! (rs ! i))) = Some (rs ! i)"
      using d i by (intro fold_upd_distinct) (simp_all add: k2 lrs)
    moreover have "index (st' ! (rs ! i)) = uniq ! i"
      using k2 i lrs by (metis nth_map)
    ultimately show ?thesis by (simp add: at d')
  qed
  with cs dom ix show ?thesis by blast
qed

lemma compile_spectra_entry:
  assumes fr: "\<forall>t\<in>set st. fresh t"
    and uniq: "uniq = sort (np_unique (map index st))" and i: "i < length uniq"
    and cm: "compilation_method (i, map index st, uniq, st) = Inr (r, s)"
  shows "\<exists>st' d. compile_spectra st = Inr (st', d) \<and> d (uniq ! i) = Some r \<and>
           st' ! r = s ! r \<and> compiled_spectrum (st', d) (uniq ! i) = Some (s ! r)"
proof -
  have "\<forall>v\<in>set (map index st). length (np_where_eq (map index st) v) = 1 \<or>
          (\<forall>t\<in>set st. index t = v \<longrightarrow> fresh t)"
    using fr by simp
  from compile_spectra_entries [OF this uniq] i cm show ?thesis
    by (fastforce simp: compiled_spectrum_def)
qed

lemma candidates_index:
  assumes "cands = np_where_eq (map index st) v" and "cands \<noteq> []"
  obtains i where "i < length (sort (np_unique (map index st)))"
    and "sort (np_unique (map index st)) ! i = v"
proof -
  from assms(2) obtain j where "j \<in> set cands" by (cases cands) auto
  then have "j < length st" "index (st ! j) = v"
    using assms(1) by (auto dest: np_where_eq_index)
  then have "v \<in> set (map index st)" by (metis length_map nth_map nth_mem)
  then have "v \<in> set (sort (np_unique (map index st)))" by (simp only: uniq_facts)
  then show ?thesis using that by (auto simp only: in_set_conv_nth)
qed

lemma filter_upt_eq: "j < n \<Longrightarrow> filter (\<lambda>k. k = j) [0..<n] = [j]"
proof (induction n)
  case 0
  then show ?case by simp
next
  case (Suc n)
  show ?case
  proof (cases "j = n")
    case True
    have "filter (\<lambda>k. k = n) [0..<n] = []" by (simp add: filter_empty_conv)
    with True show ?thesis by simp
  next
    case False
    with Suc show ?thesis by simp
  qed
qed

lemma np_where_eq_distinct:
  assumes "distinct a" and "j < length a"
  shows "np_where_eq a (a ! j) = [j]"
proof -
  have "filter (\<lambda>k. a ! k = a ! j) [0..<length a] = filter (\<lambda>k. k = j) [0..<length a]"
    using assms by (intro filter_cong) (auto simp: nth_eq_iff_index_eq)
  with assms(2) show ?thesis by (simp add: np_where_eq_def filter_upt_eq)
qed

lemma index_wrap: "map index (map wrap st) = map index st"
  by (simp add: wrap_def comp_def)

lemma compile_spectra_distinct:
  assumes "distinct (map index st)"
  shows "\<exists>d. compile_spectra st = Inr (map wrap st, d) \<and> dom d = set (map index st) \<and>
           (\<forall>j<length st. d (index (st ! j)) = Some j)"
proof -
  let ?ia = "map index st"
  let ?u = "sort (np_unique ?ia)"
  have one: "np_where_eq ?ia (index (st ! j)) = [j]" if "j < length st" for j
    using np_where_eq_distinct [OF assms, of j] that by simp
  have "\<forall>v\<in>set ?ia. length (np_where_eq ?ia v) = 1 \<or> (\<forall>t\<in>set st. index t = v \<longrightarrow> fresh t)"
  proof
    fix v assume "v \<in> set ?ia"
    then obtain j where "j < length st" "v = index (st ! j)"
      by (auto simp: in_set_conv_nth)
    then show "length (np_where_eq ?ia v) = 1 \<or> (\<forall>t\<in>set st. index t = v \<longrightarrow> fresh t)"
      by (simp add: one)
  qed
  from compile_spectra_entries [OF this refl] obtain st' d where
    cs: "compile_spectra st = Inr (st', d)" and dom: "dom d = set ?ia"
    and ix: "map index st' = ?ia"
    and en: "\<And>i r s. i < length ?u \<Longrightarrow> compilation_method (i, ?ia, ?u, st) = Inr (r, s) \<Longrightarrow>
               d (?u ! i) = Some r \<and> st' ! r = s ! r" by blast
  have at: "d (index (st ! j)) = Some j \<and> st' ! j = wrap (st ! j)" if j: "j < length st" for j
  proof -
    have "index (st ! j) \<in> set ?u" using j by (simp only: uniq_facts) simp
    then obtain i where i: "i < length ?u" "?u ! i = index (st ! j)"
      by (auto simp only: in_set_conv_nth)
    have "np_where_eq ?ia (?u ! i) = [j]" using one [OF j] i by simp
    from compilation_method_single [OF i(1) this j] en [OF i(1)] j i(2)
    show ?thesis by (simp add: wrap_def)
  qed
  have "length st' = length st" using ix by (metis length_map)
  then have "st' = map wrap st" using at by (intro nth_equalityI) simp_all
  with cs dom at show ?thesis by blast
qed

lemma collect_error:
  assumes "\<exists>x\<in>set xs. f x = Inl AttributeError"
    and "\<forall>x\<in>set xs. \<forall>e. f x = Inl e \<longrightarrow> e = AttributeError"
  shows "collect (map f xs) = Inl AttributeError"
  using assms
proof (induction xs)
  case Nil
  then show ?case by simp
next
  case (Cons a xs)
  show ?case
  proof (cases "f a")
    case (Inl e)
    with Cons.prems(2) have "e = AttributeError" by simp
    with Inl show ?thesis by simp
  next
    case (Inr y)
    with Cons.prems(1) have "\<exists>x\<in>set xs. f x = Inl AttributeError" by auto
    moreover have "\<forall>x\<in>set xs. \<forall>e. f x = Inl e \<longrightarrow> e = AttributeError"
      using Cons.prems(2) by simp
    ultimately have "collect (map f xs) = Inl AttributeError" by (rule Cons.IH)
    with Inr show ?thesis by simp
  qed
qed

lemma aic_of_error: "aic_of t = Inl e \<Longrightarrow> e = AttributeError"
  by (auto simp: aic_of_def split: pyattr.splits option.splits)

lemma aic_of_not_fresh: "\<not> fresh t \<Longrightarrow> aic_of t = Inl AttributeError"
  by (auto simp: aic_of_def fresh_def split: pyattr.splits option.splits)

lemma compilation_method_marked:
  assumes i: "i < length uniq" and l: "length (np_where_eq (map index st) (uniq ! i)) \<noteq> 1"
    and m: "\<exists>j<length st. index (st ! j) = uniq ! i \<and> \<not> fresh (st ! j)"
  shows "compilation_method (i, map index st, uniq, st) = Inl AttributeError"
proof -
  let ?idx = "np_where_eq (map index st) (uniq ! i)"
  have r: "\<forall>j\<in>set ?idx. j < length st" by (auto dest: np_where_eq_index)
  from m obtain j where j: "j < length st" "index (st ! j) = uniq ! i" "\<not> fresh (st ! j)"
    by blast
  then have "j \<in> set ?idx" by (simp add: set_np_where_eq)
  moreover have "aic_of (st ! j) = Inl AttributeError" using j(3) by (rule aic_of_not_fresh)
  ultimately have "\<exists>t\<in>set (map (\<lambda>j. st ! j) ?idx). aic_of t = Inl AttributeError"
    by auto
  then have "collect (map aic_of (map (\<lambda>j. st ! j) ?idx)) = Inl AttributeError"
    by (intro collect_error) (auto dest: aic_of_error)
  then show ?thesis
    by (simp add: compilation_method_multi [OF i refl l r])
qed

lemma not_fresh_set_provenance: "\<not> fresh (set_provenance t a b c)"
  by (simp add: fresh_def set_provenance_def)

lemma compile_each_marks:
  assumes "compile_each js (map index st) uniq st = Inr (rs, st')"
  shows "(\<forall>i\<in>set js. \<exists>j<length st. index (st ! j) = uniq ! i \<and> \<not> fresh (st' ! j)) \<and>
         (\<forall>j<length st. \<not> fresh (st ! j) \<longrightarrow> \<not> fresh (st' ! j)) \<and>
         map index st' = map index st"
  using assms
proof (induction js arbitrary: st rs)
  case Nil
  then show ?case by simp
next
  case (Cons i js)
  from Cons.prems obtain r st1 rs' where
    cm: "compilation_method (i, map index st, uniq, st) = Inr (r, st1)"
    and ce: "compile_each js (map index st) uniq st1 = Inr (rs', st')"
    by (rule compile_each_Cons_Inr)
  from compilation_method_shape [OF cm] obtain a b c where
    r: "r < length st" "index (st ! r) = uniq ! i"
    and st1: "st1 = st[r := set_provenance (st ! r) a b c]" by blast
  have ix: "map index st1 = map index st" using cm by (rule compilation_method_index)
  have len: "length st1 = length st" by (simp add: st1)
  have ixn: "\<And>j. j < length st \<Longrightarrow> index (st1 ! j) = index (st ! j)"
    using ix len by (metis nth_map)
  have "compile_each js (map index st1) uniq st1 = Inr (rs', st')" using ce by (simp add: ix)
  from Cons.IH [OF this]
  have ih: "\<forall>k\<in>set js. \<exists>j<length st1. index (st1 ! j) = uniq ! k \<and> \<not> fresh (st' ! j)"
    "\<forall>j<length st1. \<not> fresh (st1 ! j) \<longrightarrow> \<not> fresh (st' ! j)"
    "map index st' = map index st1" by simp_all
  have keep: "\<forall>j<length st. \<not> fresh (st ! j) \<longrightarrow> \<not> fresh (st1 ! j)"
    using r(1) by (simp add: st1 nth_list_update not_fresh_set_provenance)
  have "\<not> fresh (st1 ! r)" using r by (simp add: st1 not_fresh_set_provenance)
  then have "\<not> fresh (st' ! r)" using ih(2) r len by simp
  then have head: "\<exists>j<length st. index (st ! j) = uniq ! i \<and> \<not> fresh (st' ! j)"
    using r by blast
  have tail: "\<forall>k\<in>set js. \<exists>j<length st. index (st ! j) = uniq ! k \<and> \<not> fresh (st' ! j)"
    using ih(1) len ixn by metis
  show ?case using head tail keep ih(2,3) len ix by simp
qed

lemma compile_each_second:
  assumes "\<forall>i\<in>set js. i < length uniq \<and> uniq ! i \<in> set (map index st)"
    and "\<forall>i\<in>set js. length (np_where_eq (map index st) (uniq ! i)) \<noteq> 1 \<longrightarrow>
           (\<exists>j<length st. index (st ! j) = uniq ! i \<and> \<not> fresh (st ! j))"
    and "\<exists>i\<in>set js. length (np_where_eq (map index st) (uniq ! i)) \<noteq> 1"
  shows "compile_each js (map index st) uniq st = Inl AttributeError"
  using assms
proof (induction js arbitrary: st)
  case Nil
  then show ?case by simp
next
  case (Cons i js)
  have i: "i < length uniq" "uniq ! i \<in> set (map index st)" using Cons.prems(1) by auto
  show ?case
  proof (cases "length (np_where_eq (map index st) (uniq ! i)) = 1")
    case False
    with Cons.prems(2) have "\<exists>j<length st. index (st ! j) = uniq ! i \<and> \<not> fresh (st ! j)"
      by simp
    from compilation_method_marked [OF i(1) False this] show ?thesis by simp
  next
    case True
    then have "length (np_where_eq (map index st) (uniq ! i)) = 1 \<or>
               (\<forall>t\<in>set st. index t = uniq ! i \<longrightarrow> fresh t)" ..
    from compilation_method_fresh_ok [OF i this] obtain r st1 where
      cm: "compilation_method (i, map index st, uniq, st) = Inr (r, st1)" by blast
    from compilation_method_shape [OF cm] obtain a b c where
      r: "r < length st" and st1: "st1 = st[r := set_provenance (st ! r) a b c]" by blast
    have ix: "map index st1 = map index st" using cm by (rule compilation_method_index)
    have len: "length st1 = length st" by (simp add: st1)
    have ixn: "\<And>j. j < length st \<Longrightarrow> index (st1 ! j) = index (st ! j)"
      using ix len by (metis nth_map)
    have keep: "\<And>j. j < length st \<Longrightarrow> \<not> fresh (st ! j) \<Longrightarrow> \<not> fresh (st1 ! j)"
      using r by (simp add: st1 nth_list_update not_fresh_set_provenance)
    have p1: "\<forall>k\<in>set js. k < length uniq \<and> uniq ! k \<in> set (map index st1)"
      using Cons.prems(1) by (simp only: ix) simp
    have p2: "\<forall>k\<in>set js. length (np_where_eq (map index st1) (uniq ! k)) \<noteq> 1 \<longrightarrow>
                (\<exists>j<length st1. index (st1 ! j) = uniq ! k \<and> \<not> fresh (st1 ! j))"
      using Cons.prems(2) keep ixn by (simp add: ix len) metis
    have p3: "\<exists>k\<in>set js. length (np_where_eq (map index st1) (uniq ! k)) \<noteq> 1"
      using Cons.prems(3) True by (auto simp: ix)
    from Cons.IH [OF p1 p2 p3] have "compile_each js (map index st1) uniq st1 = Inl AttributeError" .
    then show ?thesis using cm by (simp add: ix)
  qed
qed

lemma not_distinct_multi:
  assumes "\<not> distinct a"
  shows "\<exists>v\<in>set a. length (np_where_eq a v) \<noteq> 1"
proof -
  from assms obtain j k where jk: "j < length a" "k < length a" "j \<noteq> k" "a ! j = a ! k"
    by (auto simp: distinct_conv_nth)
  then have "j \<in> set (np_where_eq a (a ! j))" "k \<in> set (np_where_eq a (a ! j))"
    by (simp_all add: set_np_where_eq)
  with jk(3) have "length (np_where_eq a (a ! j)) \<noteq> 1"
    by (cases "np_where_eq a (a ! j)") auto
  with jk(1) show ?thesis by (metis nth_mem)
qed

lemma compile_spectra_second_error:
  assumes fr: "\<forall>t\<in>set st. fresh t" and nd: "\<not> distinct (map index st)"
    and cs: "compile_spectra st = Inr (st1, d)"
  shows "compile_spectra st1 = Inl AttributeError"
proof -
  let ?ia = "map index st"
  let ?u = "sort (np_unique ?ia)"
  from cs obtain rs where ce: "compile_each [0..<length ?u] ?ia ?u st = Inr (rs, st1)"
    by (auto simp: compile_spectra_def Let_def split: sum.splits)
  from compile_each_marks [OF ce]
  have marks: "\<forall>i<length ?u. \<exists>j<length st. index (st ! j) = ?u ! i \<and> \<not> fresh (st1 ! j)"
    and ix: "map index st1 = ?ia" by simp_all
  have len: "length st1 = length st" using ix by (metis length_map)
  have ixn: "\<And>j. j < length st \<Longrightarrow> index (st1 ! j) = index (st ! j)"
    using ix len by (metis nth_map)
  have p1: "\<forall>i\<in>set [0..<length ?u]. i < length ?u \<and> ?u ! i \<in> set (map index st1)"
    using uniq_facts(1) [of ?ia] by (simp only: ix) (metis atLeastLessThan_iff nth_mem set_upt)
  have p2: "\<forall>i\<in>set [0..<length ?u]. length (np_where_eq (map index st1) (?u ! i)) \<noteq> 1 \<longrightarrow>
              (\<exists>j<length st1. index (st1 ! j) = ?u ! i \<and> \<not> fresh (st1 ! j))"
  proof (intro ballI impI)
    fix i assume "i \<in> set [0..<length ?u]"
    then have "i < length ?u" by simp
    with marks obtain j where "j < length st" "index (st ! j) = ?u ! i" "\<not> fresh (st1 ! j)"
      by blast
    then show "\<exists>j<length st1. index (st1 ! j) = ?u ! i \<and> \<not> fresh (st1 ! j)"
      using ixn len by auto
  qed
  from not_distinct_multi [OF nd] obtain v where v: "v \<in> set ?ia" "length (np_where_eq ?ia v) \<noteq> 1"
    by blast
  then have "v \<in> set ?u" by (simp only: uniq_facts)
  then obtain i where "i < length ?u" "?u ! i = v" by (auto simp only: in_set_conv_nth)
  with v(2) have p3: "\<exists>i\<in>set [0..<length ?u]. length (np_where_eq (map index st1) (?u ! i)) \<noteq> 1"
    by (auto simp: ix)
  from compile_each_second [OF p1 p2 p3]
  have "compile_each [0..<length ?u] (map index st1) ?u st1 = Inl AttributeError" .
  then show ?thesis
    unfolding compile_spectra_def Let_def ix by simp
qed

text \<open>
  When a candidate without a model stands before one with a model, the positions that
  \<^verbatim>\<open>np.unique\<close> returns for the array without the NaN entries are applied to the
  whole sublist: here the candidate without a model is returned and the one with a model
  is dropped.
\<close>

lemma null_before_modeled_example:
  "compilation_method (0, [7, 7], [7], [task_f_done, task_b_done]) =
     Inr (0, [set_provenance task_f_done [Scalar 2] [Scalar 6] [Scalar None], task_b_done])"
  by code_simp

section \<open>The compiler: properties\<close>

text \<open>
  C1. For a pixel index with two or more completed candidates, at least one of them with a
  model and none without a model placed before one with a model, the compiler rounds the
  AIC of each candidate with a model to 2 decimal places, keeps for each distinct rounded
  value the first candidate of the completed list that has it, and lists the kept
  candidates by ascending rounded AIC. The provenance lists (region container, region,
  model) record exactly the kept candidates, in that order, and the representative is the
  first entry of that list: the kept candidate with the lowest rounded AIC.
\<close>

theorem modeled_candidates_by_aic:
  assumes "\<forall>t\<in>set st. fresh t"
    and "cands = np_where_eq (map index st) v" and "2 \<le> length cands"
    and "modeled = takeWhile (\<lambda>j. raic (st ! j) \<noteq> None) cands"
    and "filter (\<lambda>j. raic (st ! j) \<noteq> None) cands = modeled"
    and "modeled \<noteq> []"
    and "vals = map (\<lambda>j. the (raic (st ! j))) modeled"
    and "kept = map (\<lambda>a. the (find (\<lambda>j. raic (st ! j) = Some a) cands)) (np_unique vals)"
  shows "\<exists>st' d. compile_spectra st = Inr (st', d) \<and> d v = Some (hd kept) \<and>
           compiled_spectrum (st', d) v =
             Some (set_provenance (st ! hd kept) (map (\<lambda>j. saa_dict_index (st ! j)) kept)
                     (map (\<lambda>j. saaindex (st ! j)) kept)
                     (map (\<lambda>j. model_from_parent (st ! j)) kept)) \<and>
           raic (st ! hd kept) = Some (Min (set vals))"
proof -
  let ?u = "sort (np_unique (map index st))"
  have "cands \<noteq> []" using assms(3) by auto
  with assms(2) obtain i where i: "i < length ?u" "?u ! i = v" by (rule candidates_index)
  have c: "cands = np_where_eq (map index st) (?u ! i)" using assms(2) i by simp
  have f: "\<forall>j\<in>set cands. fresh (st ! j)"
    using assms(1,2) by (auto dest!: np_where_eq_index)
  note cm = compilation_method_modeled [OF i(1) c assms(3) f assms(4-8)]
  from compilation_method_shape [OF cm(1)] have "hd kept < length st" by simp
  with compile_spectra_entry [OF assms(1) refl i(1) cm(1)] cm(2) show ?thesis
    by (auto simp: i(2))
qed

theorem modeled_candidates_by_aic_witness:
  "fresh task_e_done \<and> fresh task_b_done \<and> fresh task_f_done \<and>
   np_where_eq (map index [task_e_done, task_b_done, task_f_done]) 7 = [0, 1, 2] \<and>
   2 \<le> length [0, 1, 2 :: nat] \<and>
   takeWhile (\<lambda>j. raic ([task_e_done, task_b_done, task_f_done] ! j) \<noteq> None) [0, 1, 2] = [0, 1] \<and>
   filter (\<lambda>j. raic ([task_e_done, task_b_done, task_f_done] ! j) \<noteq> None) [0, 1, 2] = [0, 1] \<and>
   map (\<lambda>j. the (raic ([task_e_done, task_b_done, task_f_done] ! j))) [0, 1] = [50, 40] \<and>
   map (\<lambda>a. the (find (\<lambda>j. raic ([task_e_done, task_b_done, task_f_done] ! j) = Some a) [0, 1, 2]))
     (np_unique [50, 40]) = [1, 0] \<and>
   (\<exists>st' d. compile_spectra [task_e_done, task_b_done, task_f_done] = Inr (st', d) \<and> d 7 = Some 1 \<and>
      compiled_spectrum (st', d) 7 =
        Some (set_provenance task_b_done [Scalar 1, Scalar 0] [Scalar 4, Scalar 1]
                [Scalar (Some \<lparr>params = [1, 4, 1], AIC = 40\<rparr>),
                 Scalar (Some \<lparr>params = [1, 4, 1], AIC = 50\<rparr>)]) \<and>
      raic task_b_done = Some 40)"
proof -
  let ?st = "[task_e_done, task_b_done, task_f_done]"
  have f: "fresh task_e_done" "fresh task_b_done" "fresh task_f_done" by code_simp+
  then have h1: "\<forall>t\<in>set ?st. fresh t" by simp
  have h2: "[0, 1, 2] = np_where_eq (map index ?st) 7" by code_simp
  have h3: "2 \<le> length [0, 1, 2 :: nat]" by simp
  have h4: "[0, 1] = takeWhile (\<lambda>j. raic (?st ! j) \<noteq> None) [0, 1, 2]" by code_simp
  have h5: "filter (\<lambda>j. raic (?st ! j) \<noteq> None) [0, 1, 2] = [0, 1]" by code_simp
  have h6: "[0, 1 :: nat] \<noteq> []" by simp
  have h7: "[50, 40] = map (\<lambda>j. the (raic (?st ! j))) [0, 1]" by code_simp
  have h8: "[1, 0] = map (\<lambda>a. the (find (\<lambda>j. raic (?st ! j) = Some a) [0, 1, 2])) (np_unique [50, 40])"
    by code_simp
  have s: "map (\<lambda>j. saa_dict_index (?st ! j)) [1, 0] = [Scalar 1, Scalar 0]"
    "map (\<lambda>j. saaindex (?st ! j)) [1, 0] = [Scalar 4, Scalar 1]"
    "map (\<lambda>j. model_from_parent (?st ! j)) [1, 0] =
       [Scalar (Some \<lparr>params = [1, 4, 1], AIC = 40\<rparr>), Scalar (Some \<lparr>params = [1, 4, 1], AIC = 50\<rparr>)]"
    by code_simp+
  from modeled_candidates_by_aic [OF h1 h2 h3 h4 h5 h6 h7 h8] show ?thesis
    using f h2 [symmetric] h4 [symmetric] h5 h7 [symmetric] h8 [symmetric]
    by (simp only: s) simp
qed

theorem first_occurrence_counterexample:
  "index task_e_done = 7 \<and> index task_b_done = 7 \<and>
   raic task_e_done = Some 50 \<and> raic task_b_done = Some 40 \<and>
   compilation_method (0, [7, 7], [7], [task_e_done, task_b_done]) =
     Inr (1, [task_e_done,
              set_provenance task_b_done [Scalar 1, Scalar 0] [Scalar 4, Scalar 1]
                [Scalar (Some \<lparr>params = [1, 4, 1], AIC = 40\<rparr>),
                 Scalar (Some \<lparr>params = [1, 4, 1], AIC = 50\<rparr>)]]) \<and>
   compiled_spectrum (projr (compile_spectra [task_e_done, task_b_done])) 7 =
     Some (set_provenance task_b_done [Scalar 1, Scalar 0] [Scalar 4, Scalar 1]
             [Scalar (Some \<lparr>params = [1, 4, 1], AIC = 40\<rparr>),
              Scalar (Some \<lparr>params = [1, 4, 1], AIC = 50\<rparr>)])"
  by code_simp

text \<open>
  C2. For a pixel index with two or more completed candidates none of which has a model,
  the compiler takes the first candidate of the completed list as the representative. Its
  model list is the one-element list holding no model, and its two provenance lists hold
  the (region container, region) pair of that first candidate only: the other candidates
  are not recorded.
\<close>

theorem all_null_takes_first:
  assumes "\<forall>t\<in>set st. fresh t"
    and "cands = np_where_eq (map index st) v" and "2 \<le> length cands"
    and "\<forall>j\<in>set cands. model_from_parent (st ! j) = Scalar None"
  shows "\<exists>st' d. compile_spectra st = Inr (st', d) \<and> d v = Some (hd cands) \<and>
           compiled_spectrum (st', d) v =
             Some (set_provenance (st ! hd cands) [saa_dict_index (st ! hd cands)]
                     [saaindex (st ! hd cands)] [Scalar None])"
proof -
  let ?u = "sort (np_unique (map index st))"
  have "cands \<noteq> []" using assms(3) by auto
  with assms(2) obtain i where i: "i < length ?u" "?u ! i = v" by (rule candidates_index)
  have c: "cands = np_where_eq (map index st) (?u ! i)" using assms(2) i by simp
  note cm = compilation_method_all_null [OF i(1) c assms(3,4)]
  from compilation_method_shape [OF cm] have "hd cands < length st" by simp
  with compile_spectra_entry [OF assms(1) refl i(1) cm] show ?thesis
    by (auto simp: i(2))
qed

theorem all_null_takes_first_witness:
  "fresh task_d_done \<and> fresh task_c_done \<and>
   np_where_eq (map index [task_d_done, task_c_done]) 9 = [0, 1] \<and> 2 \<le> length [0, 1 :: nat] \<and>
   model_from_parent task_d_done = Scalar None \<and> model_from_parent task_c_done = Scalar None \<and>
   (\<exists>st' d. compile_spectra [task_d_done, task_c_done] = Inr (st', d) \<and> d 9 = Some 0 \<and>
      compiled_spectrum (st', d) 9 = Some (set_provenance task_d_done [Scalar 1] [Scalar 4] [Scalar None]))"
proof -
  have f: "fresh task_d_done" "fresh task_c_done" by code_simp+
  then have h1: "\<forall>t\<in>set [task_d_done, task_c_done]. fresh t" by simp
  have h2: "[0, 1] = np_where_eq (map index [task_d_done, task_c_done]) 9" by code_simp
  have h3: "2 \<le> length [0, 1 :: nat]" by simp
  have m: "model_from_parent task_d_done = Scalar None" "model_from_parent task_c_done = Scalar None"
    by code_simp+
  then have h4: "\<forall>j\<in>set [0, 1]. model_from_parent ([task_d_done, task_c_done] ! j) = Scalar None"
    by simp
  have s: "saa_dict_index task_d_done = Scalar 1" "saaindex task_d_done = Scalar 4" by code_simp+
  from all_null_takes_first [OF h1 h2 h3 h4] show ?thesis
    using f h2 [symmetric] m by (simp add: s)
qed

theorem all_null_provenance_counterexample:
  "model_from_parent task_d_done = Scalar None \<and> model_from_parent task_c_done = Scalar None \<and>
   index task_d_done = 9 \<and> index task_c_done = 9 \<and>
   compiled_spectrum (projr (compile_spectra [task_d_done, task_c_done])) 9 =
     Some (set_provenance task_d_done [Scalar 1] [Scalar 4] [Scalar None]) \<and>
   saaindex (set_provenance task_d_done [Scalar 1] [Scalar 4] [Scalar None]) = PyList [Scalar 4]"
  by code_simp

text \<open>
  C3. For a completed list as the scheduler leaves it (every model attribute holding a
  model or nothing), the compiler returns, the key set of its dictionary is exactly the set
  of pixel indices occurring in the list, and every key stands for one task of that pixel:
  no index is missing and none has two entries.
\<close>

theorem compile_spectra_coverage:
  assumes "\<forall>t\<in>set completed. fresh t"
  shows "\<exists>store d. compile_spectra completed = Inr (store, d) \<and>
           dom d = set (map index completed) \<and>
           map index store = map index completed \<and>
           (\<forall>k r. d k = Some r \<longrightarrow> r < length store \<and> index (store ! r) = k)"
proof -
  let ?ia = "map index completed"
  let ?u = "sort (np_unique ?ia)"
  have u: "map (\<lambda>i. ?u ! i) [0..<length ?u] = ?u" by (rule map_nth)
  have p1: "\<forall>i\<in>set [0..<length ?u]. i < length ?u \<and> ?u ! i \<in> set ?ia"
    using uniq_facts(1) [of ?ia] by (metis atLeastLessThan_iff nth_mem set_upt)
  have p2: "distinct (map (\<lambda>i. ?u ! i) [0..<length ?u])"
    by (simp only: u uniq_facts)
  have p3: "\<forall>i\<in>set [0..<length ?u]. length (np_where_eq ?ia (?u ! i)) = 1 \<or>
              (\<forall>t\<in>set completed. index t = ?u ! i \<longrightarrow> fresh t)"
    using assms by simp
  from compile_each_ok [OF p1 p2 p3] obtain rs store where
    ce: "compile_each [0..<length ?u] ?ia ?u completed = Inr (rs, store)"
    and ix: "map index store = ?ia"
    and keys: "map (\<lambda>r. ?ia ! r) rs = ?u"
    and lt: "\<forall>r\<in>set rs. r < length completed" by (auto simp only: u)
  let ?d = "fold (\<lambda>r indiv_dict. indiv_dict(index (store ! r) \<mapsto> r)) rs Map.empty"
  have len: "length store = length completed" using ix by (metis length_map)
  have key: "\<And>r. r \<in> set rs \<Longrightarrow> index (store ! r) = ?ia ! r"
    using lt len ix by (metis nth_map)
  have cs: "compile_spectra completed = Inr (store, ?d)"
    using ce by (simp add: compile_spectra_def Let_def)
  have "dom ?d = (\<lambda>r. index (store ! r)) ` set rs" by (simp add: dom_fold_upd)
  also have "\<dots> = (\<lambda>r. ?ia ! r) ` set rs" using key by (intro image_cong) auto
  also have "\<dots> = set (map (\<lambda>r. ?ia ! r) rs)" by simp
  also have "\<dots> = set ?ia" by (simp only: keys uniq_facts)
  finally have dom: "dom ?d = set ?ia" .
  have "\<forall>k r. ?d k = Some r \<longrightarrow> r < length store \<and> index (store ! r) = k"
    using fold_upd_Some [of "\<lambda>r. index (store ! r)" rs Map.empty] lt len by fastforce
  with cs dom ix show ?thesis by blast
qed

theorem compile_spectra_coverage_witness:
  "fresh task_b_done \<and> fresh task_a_done \<and> fresh task_d_done \<and>
   (\<exists>store d. compile_spectra [task_b_done, task_a_done, task_d_done] = Inr (store, d) \<and>
      dom d = set (map index [task_b_done, task_a_done, task_d_done]) \<and>
      map index store = map index [task_b_done, task_a_done, task_d_done] \<and>
      (\<forall>k r. d k = Some r \<longrightarrow> r < length store \<and> index (store ! r) = k))"
proof -
  have f: "fresh task_b_done" "fresh task_a_done" "fresh task_d_done" by code_simp+
  then have "\<forall>t\<in>set [task_b_done, task_a_done, task_d_done]. fresh t" by simp
  from compile_spectra_coverage [OF this] f show ?thesis by blast
qed

text \<open>
  C8. The first run of the compiler overwrites the provenance attributes of every task it
  returns, so a second run over the same list does not give the same mapping. On a
  completed list as the scheduler leaves it the first run returns; when every pixel index
  has one candidate, the second run returns the same keys with the same tasks, each
  provenance attribute wrapped in one more list; when some pixel index has two or more
  candidates, the second run stops with an AttributeError, the model attribute of the
  representative now being a list.
\<close>

theorem second_run_on_same_list:
  assumes "\<forall>t\<in>set st. fresh t"
  shows "\<exists>st1 d. compile_spectra st = Inr (st1, d) \<and>
           (if distinct (map index st)
            then st1 = map wrap st \<and> compile_spectra st1 = Inr (map wrap st1, d)
            else compile_spectra st1 = Inl AttributeError)"
proof (cases "distinct (map index st)")
  case True
  from compile_spectra_distinct [OF True] obtain d where
    d: "compile_spectra st = Inr (map wrap st, d)" "dom d = set (map index st)"
       "\<forall>j<length st. d (index (st ! j)) = Some j" by blast
  have "distinct (map index (map wrap st))" using True by (simp only: index_wrap)
  from compile_spectra_distinct [OF this] obtain d' where
    d': "compile_spectra (map wrap st) = Inr (map wrap (map wrap st), d')"
        "dom d' = set (map index st)"
        "\<forall>j<length st. d' (index (map wrap st ! j)) = Some j"
    by (auto simp only: index_wrap length_map)
  have w: "\<And>j. j < length st \<Longrightarrow> index (map wrap st ! j) = index (st ! j)"
    by (simp add: wrap_def)
  have "d' k = d k" for k
  proof (cases "k \<in> set (map index st)")
    case True
    then obtain j where "j < length st" "k = index (st ! j)" by (auto simp: in_set_conv_nth)
    with d(3) d'(3) w show ?thesis by simp
  next
    case False
    with d(2) d'(2) show ?thesis by (metis domIff)
  qed
  then have "d' = d" by (rule ext)
  with d(1) d'(1) True show ?thesis by simp
next
  case False
  have "\<forall>v\<in>set (map index st). length (np_where_eq (map index st) v) = 1 \<or>
          (\<forall>t\<in>set st. index t = v \<longrightarrow> fresh t)"
    using assms by simp
  from compile_spectra_entries [OF this refl] obtain st1 d where
    cs: "compile_spectra st = Inr (st1, d)" by blast
  from compile_spectra_second_error [OF assms False cs] cs False show ?thesis by simp
qed

theorem second_run_on_same_list_witness:
  "fresh task_e_done \<and> fresh task_b_done \<and> \<not> distinct (map index [task_e_done, task_b_done]) \<and>
   (\<exists>st1 d. compile_spectra [task_e_done, task_b_done] = Inr (st1, d) \<and>
      compile_spectra st1 = Inl AttributeError)"
proof -
  have f: "fresh task_e_done" "fresh task_b_done" by code_simp+
  then have h: "\<forall>t\<in>set [task_e_done, task_b_done]. fresh t" by simp
  have n: "\<not> distinct (map index [task_e_done, task_b_done])" by code_simp
  from second_run_on_same_list [OF h] show ?thesis using f n by auto
qed

theorem second_run_counterexample:
  "compiled_spectrum (projr (compile_spectra [task_d_done])) 9 =
     Some (set_provenance task_d_done [Scalar 1] [Scalar 4] [Scalar None]) \<and>
   compiled_spectrum (projr (compile_spectra (fst (projr (compile_spectra [task_d_done]))))) 9 =
     Some (set_provenance task_d_done [PyList [Scalar 1]] [PyList [Scalar 4]] [PyList [Scalar None]]) \<and>
   map_sum id fst (compile_spectra (fst (projr (compile_spectra [task_e_done, task_b_done]))))
     = Inl AttributeError"
  by code_simp

end
